theory Spec2Isabelle
  imports Complex_Main
begin

section \<open>Values of the host language\<close>

text \<open>
  A number is either NaN or finite. A finite number is modelled by its exact rational
  value: every minute value the program itself creates is a small integer, on which the
  binary64 operations below give the exact result. The infinities are not represented.
  The one computation whose result depends on binary64 rounding, the completion
  percentage, rounds explicitly (see \<open>fl\<close> below).
\<close>

datatype jsnum = NaN | Fin rat

fun js_add :: "jsnum \<Rightarrow> jsnum \<Rightarrow> jsnum" where
  "js_add (Fin a) (Fin b) = Fin (a + b)"
| "js_add _ _ = NaN"

fun js_mul :: "jsnum \<Rightarrow> jsnum \<Rightarrow> jsnum" where
  "js_mul (Fin a) (Fin b) = Fin (a * b)"
| "js_mul _ _ = NaN"

text \<open>\<^verbatim>\<open>Math.max(a, b)\<close>: NaN as soon as one argument is NaN.\<close>

fun js_max :: "jsnum \<Rightarrow> jsnum \<Rightarrow> jsnum" where
  "js_max (Fin a) (Fin b) = Fin (max a b)"
| "js_max _ _ = NaN"

text \<open>\<^verbatim>\<open>x || d\<close> on numbers: the falsy numbers are 0 and NaN.\<close>

fun js_or :: "jsnum \<Rightarrow> jsnum \<Rightarrow> jsnum" where
  "js_or NaN d = d"
| "js_or (Fin a) d = (if a = 0 then d else Fin a)"

text \<open>
  \<^verbatim>\<open>String.prototype.trim\<close> strips white space and line terminators from both ends.
  Strings are byte strings here, so the white space characters are the ASCII ones and
  the no-break space.
\<close>

definition is_ws :: "char \<Rightarrow> bool" where
  "is_ws c \<longleftrightarrow> of_char c \<in> {9, 10, 11, 12, 13, 32, 160 :: nat}"

definition trim :: "string \<Rightarrow> string" where
  "trim s = rev (dropWhile is_ws (rev (dropWhile is_ws s)))"

section \<open>Data model\<close>

text \<open>
  An ISO date string \<^verbatim>\<open>YYYY-MM-DD\<close> is modelled by its three numeric fields
  (year, month 1..12, day of month): the numbers \<^verbatim>\<open>parseISODate\<close> reads from it, and
  the numbers \<^verbatim>\<open>toISODate\<close> writes into a key (\<open>isoText\<close> below is the text of that
  key).
\<close>

type_synonym iso = "int \<times> int \<times> int"

record habit =
  id_habit :: string
  name :: string
  active :: bool

datatype event_type = Habit | Custom

text \<open>
  The event model of the source. \<^verbatim>\<open>habitId\<close> is optional; \<^verbatim>\<open>durationMin\<close> is read
  with a default by the code (\<^verbatim>\<open>e.durationMin ?? dur\<close>), so it is optional as well.
\<close>

record event =
  id_event :: string
  type_event :: event_type
  habitId :: "string option"
  title :: string
  startMin :: jsnum
  durationMin :: "jsnum option"
  color :: string
  notes_event :: string

text \<open>The partial object merged into an event by \<^verbatim>\<open>{ ...e, ...patch }\<close>.\<close>

record patch =
  p_title :: "string option"
  p_startMin :: "jsnum option"
  p_durationMin :: "jsnum option"
  p_color :: "string option"
  p_notes :: "string option"

datatype view = DayView | WeekView | MonthView

text \<open>The value of the duration field of the form: a number, or the text of the input.\<close>

datatype formnum = NumV jsnum | StrV string

record app =
  selectedISO :: iso
  view :: view
  habits :: "habit list"
  habitChecksByDate :: "iso \<rightharpoonup> (string \<rightharpoonup> bool)"
  eventsByDate :: "iso \<rightharpoonup> event list"
  eventModalOpen :: bool
  eventModalISO :: iso
  editingEventId :: "string option"
  formTime :: string
  formTitle :: string
  formDuration :: formnum
  formColor :: string
  formNotes :: string

section \<open>Event store\<close>

text \<open>\<^verbatim>\<open>prev[iso] ?? []\<close>\<close>

definition orEmpty :: "(iso \<rightharpoonup> 'a list) \<Rightarrow> iso \<Rightarrow> 'a list" where
  "orEmpty m i = (case m i of None \<Rightarrow> [] | Some es \<Rightarrow> es)"

definition merge :: "event \<Rightarrow> patch \<Rightarrow> event" where
  "merge e p =
     e\<lparr> title := (case p_title p of None \<Rightarrow> title e | Some v \<Rightarrow> v),
        startMin := (case p_startMin p of None \<Rightarrow> startMin e | Some v \<Rightarrow> v),
        durationMin := (case p_durationMin p of None \<Rightarrow> durationMin e | Some v \<Rightarrow> Some v),
        color := (case p_color p of None \<Rightarrow> color e | Some v \<Rightarrow> v),
        notes_event := (case p_notes p of None \<Rightarrow> notes_event e | Some v \<Rightarrow> v) \<rparr>"

definition addEventForDay :: "iso \<Rightarrow> event \<Rightarrow> app \<Rightarrow> app" where
  "addEventForDay i evt s =
     s\<lparr> eventsByDate := (eventsByDate s)(i \<mapsto> orEmpty (eventsByDate s) i @ [evt]) \<rparr>"

definition updateEventForDay :: "iso \<Rightarrow> string \<Rightarrow> patch \<Rightarrow> app \<Rightarrow> app" where
  "updateEventForDay i eventId p s =
     s\<lparr> eventsByDate := (eventsByDate s)
          (i \<mapsto> map (\<lambda>e. if id_event e = eventId then merge e p else e)
                   (orEmpty (eventsByDate s) i)) \<rparr>"

definition deleteEventForDay :: "iso \<Rightarrow> string \<Rightarrow> app \<Rightarrow> app" where
  "deleteEventForDay i eventId s =
     s\<lparr> eventsByDate := (eventsByDate s)
          (i \<mapsto> filter (\<lambda>e. id_event e \<noteq> eventId) (orEmpty (eventsByDate s) i)) \<rparr>"

definition noPatch :: patch where
  "noPatch = \<lparr> p_title = None, p_startMin = None, p_durationMin = None,
               p_color = None, p_notes = None \<rparr>"

definition moveEventToTime :: "iso \<Rightarrow> string \<Rightarrow> jsnum \<Rightarrow> app \<Rightarrow> app" where
  "moveEventToTime i eventId newStartMin s =
     updateEventForDay i eventId (noPatch\<lparr> p_startMin := Some newStartMin \<rparr>) s"

section \<open>Habit registry\<close>

definition activeHabits :: "app \<Rightarrow> habit list" where
  "activeHabits s = filter active (habits s)"

text \<open>
  The three state updates of \<^verbatim>\<open>deleteHabit\<close>. The loops over \<^verbatim>\<open>Object.keys(next)\<close>
  rewrite the entry of every stored date, which is a pointwise map over the table.
\<close>

definition deleteHabit :: "string \<Rightarrow> app \<Rightarrow> app" where
  "deleteHabit i s =
     s\<lparr> habits := filter (\<lambda>h. id_habit h \<noteq> i) (habits s),
        habitChecksByDate :=
          (\<lambda>d. case habitChecksByDate s d of
                 None \<Rightarrow> None
               | Some row \<Rightarrow> Some (if row i \<noteq> None then row(i := None) else row)),
        eventsByDate :=
          (\<lambda>d. case eventsByDate s d of
                 None \<Rightarrow> None
               | Some es \<Rightarrow>
                   Some (filter (\<lambda>e. type_event e \<noteq> Habit \<or> habitId e \<noteq> Some i) es)) \<rparr>"

section \<open>Event dialog\<close>

text \<open>\<^verbatim>\<open>s.split(c)\<close> for a one-character separator: never empty.\<close>

fun split_on :: "char \<Rightarrow> string \<Rightarrow> string list" where
  "split_on c [] = [[]]"
| "split_on c (x # xs) =
     (if x = c then [] # split_on c xs
      else (case split_on c xs of [] \<Rightarrow> [[x]] | p # ps \<Rightarrow> (x # p) # ps))"

text \<open>
  Array destructuring \<^verbatim>\<open>[hh, mm] = parts\<close>: a missing element is
  \<^verbatim>\<open>undefined\<close>, modelled by \<open>None\<close>.
\<close>

definition element :: "'a list \<Rightarrow> nat \<Rightarrow> 'a option" where
  "element xs k = (if k < length xs then Some (xs ! k) else None)"

text \<open>\<^verbatim>\<open>Number.isNaN(v)\<close> holds of the number NaN only, not of \<^verbatim>\<open>undefined\<close>.\<close>

definition Number_isNaN :: "jsnum option \<Rightarrow> bool" where
  "Number_isNaN v \<longleftrightarrow> v = Some NaN"

text \<open>An arithmetic operand: \<^verbatim>\<open>undefined\<close> converts to NaN.\<close>

definition operand :: "jsnum option \<Rightarrow> jsnum" where
  "operand v = (case v of None \<Rightarrow> NaN | Some n \<Rightarrow> n)"

text \<open>
  The conversion \<^verbatim>\<open>Number\<close> of a string to a number belongs to the host language and
  is a parameter of the model.
\<close>

definition hhmmToMinutes :: "(string \<Rightarrow> jsnum) \<Rightarrow> string \<Rightarrow> jsnum" where
  "hhmmToMinutes Number hhmm =
     (let parts = map Number (split_on CHR '':'' hhmm);
          hh = element parts 0;
          mm = element parts 1
      in if Number_isNaN hh \<or> Number_isNaN mm then Fin (8 * 60)
         else js_add (js_mul (operand hh) (Fin 60)) (operand mm))"

definition toNumber :: "(string \<Rightarrow> jsnum) \<Rightarrow> formnum \<Rightarrow> jsnum" where
  "toNumber Number v = (case v of NumV n \<Rightarrow> n | StrV t \<Rightarrow> Number t)"

text \<open>
  \<^verbatim>\<open>saveEventModal\<close>; \<open>newId\<close> is the value the call of \<^verbatim>\<open>uid()\<close> returns.
  \<^verbatim>\<open>!editingEventId\<close> holds of \<^verbatim>\<open>null\<close> and of the empty string.
\<close>

definition saveEventModal :: "(string \<Rightarrow> jsnum) \<Rightarrow> string \<Rightarrow> app \<Rightarrow> app" where
  "saveEventModal Number newId s =
     (let title' = trim (formTitle s) in
      if title' = [] then s
      else
        let i = eventModalISO s;
            startMin' = hhmmToMinutes Number (formTime s);
            durationMin' = js_max (Fin 5) (js_or (toNumber Number (formDuration s)) (Fin 30));
            color' = (if formColor s = [] then ''#93c5fd'' else formColor s);
            notes' = formNotes s;
            s' = (case editingEventId s of
                    Some eventId \<Rightarrow>
                      if eventId = [] then
                        addEventForDay i
                          \<lparr> id_event = newId, type_event = Custom, habitId = None,
                            title = title', startMin = startMin',
                            durationMin = Some durationMin', color = color',
                            notes_event = notes' \<rparr> s
                      else
                        updateEventForDay i eventId
                          \<lparr> p_title = Some title', p_startMin = Some startMin',
                            p_durationMin = Some durationMin', p_color = Some color',
                            p_notes = Some notes' \<rparr> s
                  | None \<Rightarrow>
                      addEventForDay i
                        \<lparr> id_event = newId, type_event = Custom, habitId = None,
                          title = title', startMin = startMin',
                          durationMin = Some durationMin', color = color',
                          notes_event = notes' \<rparr> s)
        in s'\<lparr> eventModalOpen := False \<rparr>)"

section \<open>Default habit blocks\<close>

definition TIME_GRID_STEP_MIN :: rat where
  "TIME_GRID_STEP_MIN = 15"

fun snapToTimeGrid :: "jsnum \<Rightarrow> jsnum" where
  "snapToTimeGrid (Fin minutes) =
     Fin (of_int \<lceil>minutes / TIME_GRID_STEP_MIN\<rceil> * TIME_GRID_STEP_MIN)"
| "snapToTimeGrid NaN = NaN"

definition startBase :: jsnum where
  "startBase = Fin (8 * 60)"

definition gap :: jsnum where
  "gap = Fin TIME_GRID_STEP_MIN"

definition dur :: jsnum where
  "dur = Fin 30"

text \<open>\<^verbatim>\<open>e.startMin + (e.durationMin ?? dur)\<close>\<close>

definition blockEnd :: "event \<Rightarrow> jsnum" where
  "blockEnd e = js_add (startMin e) (case durationMin e of None \<Rightarrow> dur | Some d \<Rightarrow> d)"

text \<open>
  \<^verbatim>\<open>habitBlocks.length > 0 ? Math.max(...ends) + gap : startBase\<close>; the maximum is
  taken of a non-empty list only.
\<close>

definition lastEnd :: "event list \<Rightarrow> jsnum" where
  "lastEnd habitBlocks =
     (case map blockEnd habitBlocks of
        [] \<Rightarrow> startBase
      | x # xs \<Rightarrow> js_add (foldl js_max x xs) gap)"

text \<open>The update of the cursor after a block: \<^verbatim>\<open>cursor = snapToTimeGrid(cursor + dur + gap)\<close>\<close>

definition nextCursor :: "jsnum \<Rightarrow> jsnum" where
  "nextCursor cursor = snapToTimeGrid (js_add (js_add cursor dur) gap)"

text \<open>
  \<^verbatim>\<open>missingHabits.map(...)\<close> with its mutable \<^verbatim>\<open>cursor\<close>. The identifiers come from
  \<^verbatim>\<open>uid()\<close>, modelled by the sequence \<open>uid\<close> of the values it returns and the number
  \<open>k\<close> of calls made so far.
\<close>

fun newBlocks :: "(nat \<Rightarrow> string) \<Rightarrow> nat \<Rightarrow> jsnum \<Rightarrow> habit list \<Rightarrow> event list" where
  "newBlocks uid k cursor [] = []"
| "newBlocks uid k cursor (h # hs) =
     \<lparr> id_event = uid k, type_event = Habit, habitId = Some (id_habit h),
       title = name h, startMin = cursor, durationMin = Some dur,
       color = ''#bbf7d0'', notes_event = [] \<rparr>
     # newBlocks uid (Suc k) (nextCursor cursor) hs"

definition missingHabits :: "habit list \<Rightarrow> event list \<Rightarrow> habit list" where
  "missingHabits act existing =
     (let habitBlocks = filter (\<lambda>e. type_event e = Habit) existing;
          existingHabitIds = set (map habitId habitBlocks)
      in filter (\<lambda>h. Some (id_habit h) \<notin> existingHabitIds) act)"

text \<open>
  The body of \<^verbatim>\<open>isos.forEach\<close>, on the loop state: the table \<^verbatim>\<open>next\<close>, the number
  of identifiers drawn, and the flag \<^verbatim>\<open>changed\<close>.
\<close>

definition ensureDate ::
  "(nat \<Rightarrow> string) \<Rightarrow> habit list \<Rightarrow> (iso \<rightharpoonup> event list) \<times> nat \<times> bool \<Rightarrow> iso
     \<Rightarrow> (iso \<rightharpoonup> event list) \<times> nat \<times> bool" where
  "ensureDate uid act st i =
     (case st of (next, k, changed) \<Rightarrow>
        let existing = orEmpty next i;
            habitBlocks = filter (\<lambda>e. type_event e = Habit) existing;
            missing = missingHabits act existing
        in if missing = [] then (next, k, changed)
           else
             let cursor = snapToTimeGrid (lastEnd habitBlocks);
                 blocks = newBlocks uid k cursor missing
             in if blocks \<noteq> [] then (next(i \<mapsto> existing @ blocks), k + length missing, True)
                else (next, k + length missing, changed))"

text \<open>
  \<^verbatim>\<open>ensureDefaultHabitBlocksForDates\<close>: the new state and the number of identifiers
  drawn so far.
\<close>

definition ensureDefaultHabitBlocksForDates ::
  "(nat \<Rightarrow> string) \<Rightarrow> iso list \<Rightarrow> app \<times> nat \<Rightarrow> app \<times> nat" where
  "ensureDefaultHabitBlocksForDates uid isos sk =
     (case sk of (s, k) \<Rightarrow>
        if activeHabits s = [] \<or> isos = [] then (s, k)
        else
          (case foldl (ensureDate uid (activeHabits s)) (eventsByDate s, k, False) isos of
             (next, k', changed) \<Rightarrow>
               (s\<lparr> eventsByDate := (if changed then next else eventsByDate s) \<rparr>, k')))"

definition ensureDefaultHabitBlocksForDay ::
  "(nat \<Rightarrow> string) \<Rightarrow> iso \<Rightarrow> app \<times> nat \<Rightarrow> app \<times> nat" where
  "ensureDefaultHabitBlocksForDay uid i sk = ensureDefaultHabitBlocksForDates uid [i] sk"

section \<open>Dates of the host language\<close>

text \<open>
  A \<^verbatim>\<open>Date\<close> is modelled by its time value in local civil time: the milliseconds
  since 1 January 1970, 00:00. The program reads and writes dates through their local
  fields only, so the offset of the zone plays no role. Invalid dates are not
  represented. The abstract operations are those of the language definition.
\<close>

type_synonym date = int

definition msPerDay :: int where
  "msPerDay = 86400000"

definition noon :: int where
  "noon = 12 * 3600000"

definition Day :: "date \<Rightarrow> int" where
  "Day t = t div msPerDay"

definition TimeWithinDay :: "date \<Rightarrow> int" where
  "TimeWithinDay t = t mod msPerDay"

definition MakeDate :: "int \<Rightarrow> int \<Rightarrow> date" where
  "MakeDate day time = day * msPerDay + time"

definition WeekDay :: "date \<Rightarrow> int" where
  "WeekDay t = (Day t + 4) mod 7"

text \<open>
  The proleptic Gregorian calendar. \<open>civil_from_days\<close> gives year, month (1..12) and
  day of month of a day number, counting the days of a 400-year cycle that starts on
  1 March; \<open>days_from_civil\<close> gives the day number of a year, month and day of month.
\<close>

definition civil_from_days :: "int \<Rightarrow> int \<times> int \<times> int" where
  "civil_from_days z =
    (let z' = z + 719468;
         era = z' div 146097;
         doe = z' mod 146097;
         n100 = min 3 (doe div 36524);
         d2 = doe - n100 * 36524;
         n4 = d2 div 1461;
         d3 = d2 mod 1461;
         n1 = min 3 (d3 div 365);
         doy = d3 - n1 * 365;
         yoe = 100 * n100 + 4 * n4 + n1;
         mp = (5 * doy + 2) div 153;
         d = doy - (153 * mp + 2) div 5 + 1;
         m = (if mp < 10 then mp + 3 else mp - 9);
         y = yoe + era * 400
     in (if m \<le> 2 then y + 1 else y, m, d))"

definition days_from_civil :: "int \<Rightarrow> int \<Rightarrow> int \<Rightarrow> int" where
  "days_from_civil y m d =
    (let y' = (if m \<le> 2 then y - 1 else y);
         era = y' div 400;
         yoe = y' mod 400;
         mp = (if m > 2 then m - 3 else m + 9);
         doy = (153 * mp + 2) div 5 + d - 1;
         doe = yoe * 365 + yoe div 4 - yoe div 100 + doy
     in era * 146097 + doe - 719468)"

definition YearFromTime :: "date \<Rightarrow> int" where
  "YearFromTime t = (case civil_from_days (Day t) of (y, m, d) \<Rightarrow> y)"

text \<open>Months are numbered from 0.\<close>

definition MonthFromTime :: "date \<Rightarrow> int" where
  "MonthFromTime t = (case civil_from_days (Day t) of (y, m, d) \<Rightarrow> m - 1)"

definition DateFromTime :: "date \<Rightarrow> int" where
  "DateFromTime t = (case civil_from_days (Day t) of (y, m, d) \<Rightarrow> d)"

text \<open>
  \<open>MakeDay year month date\<close>: the day number of the first of the month, months beyond
  0..11 carried into the year, plus \<open>date - 1\<close>.
\<close>

definition MakeDay :: "int \<Rightarrow> int \<Rightarrow> int \<Rightarrow> int" where
  "MakeDay year month dt =
     days_from_civil (year + month div 12) (month mod 12 + 1) 1 + dt - 1"

text \<open>The methods of \<^verbatim>\<open>Date\<close> the program calls.\<close>

definition getFullYear :: "date \<Rightarrow> int" where
  "getFullYear t = YearFromTime t"

definition getMonth :: "date \<Rightarrow> int" where
  "getMonth t = MonthFromTime t"

definition getDate :: "date \<Rightarrow> int" where
  "getDate t = DateFromTime t"

definition getDay :: "date \<Rightarrow> int" where
  "getDay t = WeekDay t"

definition setDate :: "date \<Rightarrow> int \<Rightarrow> date" where
  "setDate t dt = MakeDate (MakeDay (YearFromTime t) (MonthFromTime t) dt) (TimeWithinDay t)"

definition setMonth :: "date \<Rightarrow> int \<Rightarrow> date" where
  "setMonth t month =
     MakeDate (MakeDay (YearFromTime t) month (DateFromTime t)) (TimeWithinDay t)"

text \<open>\<^verbatim>\<open>x.setHours(12, 0, 0, 0)\<close>\<close>

definition setHours12 :: "date \<Rightarrow> date" where
  "setHours12 t = MakeDate (Day t) noon"

text \<open>
  \<^verbatim>\<open>new Date(y, m, d, 12, 0, 0, 0)\<close>; a year from 0 to 99 stands for 1900 plus
  that year.
\<close>

definition newDate12 :: "int \<Rightarrow> int \<Rightarrow> int \<Rightarrow> date" where
  "newDate12 y m d =
     MakeDate (MakeDay (if 0 \<le> y \<and> y \<le> 99 then 1900 + y else y) m d) noon"

section \<open>Calendar date math\<close>

definition toISODate :: "date \<Rightarrow> iso" where
  "toISODate x = (getFullYear x, getMonth x + 1, getDate x)"

definition parseISODate :: "iso \<Rightarrow> date" where
  "parseISODate i = (case i of (y, m, d) \<Rightarrow> newDate12 y (m - 1) d)"

text \<open>
  The text of the key that \<^verbatim>\<open>toISODate\<close> writes,
  \<^verbatim>\<open>`${x.getFullYear()}-${pad2(x.getMonth() + 1)}-${pad2(x.getDate())}`\<close>, from its three
  fields: month and day are padded to two digits, the year is written as the number it
  is. For a year from 1000 to 9999 this is the form \<^verbatim>\<open>YYYY-MM-DD\<close>; a smaller year is
  written with fewer than four digits.
\<close>

fun String_nat :: "nat \<Rightarrow> string" where
  "String_nat n =
     (if n < 10 then [''0123456789'' ! n]
      else String_nat (n div 10) @ [''0123456789'' ! (n mod 10)])"

declare String_nat.simps [simp del]

definition String_int :: "int \<Rightarrow> string" where
  "String_int n = (if n < 0 then ''-'' @ String_nat (nat (- n)) else String_nat (nat n))"

definition padStart :: "nat \<Rightarrow> char \<Rightarrow> string \<Rightarrow> string" where
  "padStart n c str = replicate (n - length str) c @ str"

definition pad2 :: "int \<Rightarrow> string" where
  "pad2 n = padStart 2 (CHR ''0'') (String_int n)"

definition isoText :: "iso \<Rightarrow> string" where
  "isoText i = (case i of (y, m, d) \<Rightarrow> String_int y @ ''-'' @ pad2 m @ ''-'' @ pad2 d)"

definition startOfDay :: "date \<Rightarrow> date" where
  "startOfDay d = setHours12 d"

definition addDays :: "date \<Rightarrow> int \<Rightarrow> date" where
  "addDays d n = setHours12 (setDate d (getDate d + n))"

definition startOfISOWeek :: "date \<Rightarrow> date" where
  "startOfISOWeek d =
     (let x = startOfDay d;
          day = getDay x;
          diff = (if day = 0 then - 6 else 1 - day)
      in addDays x diff)"

definition endOfISOWeek :: "date \<Rightarrow> date" where
  "endOfISOWeek d = addDays (startOfISOWeek d) 6"

definition startOfMonth :: "date \<Rightarrow> date" where
  "startOfMonth d = setDate (startOfDay d) 1"

definition endOfMonth :: "date \<Rightarrow> date" where
  "endOfMonth d =
     (let x = startOfMonth d;
          x1 = setMonth x (getMonth x + 1);
          x2 = setDate x1 0
      in setHours12 x2)"

text \<open>
  The loop \<^verbatim>\<open>for (let d = from; d <= to; d = addDays(d, 1)) out.push(f(d))\<close>, which
  the program runs twice, with \<^verbatim>\<open>toISODate\<close> and with \<^verbatim>\<open>startOfDay\<close>. A run that
  never ends has the value \<open>None\<close>.
\<close>

partial_function (option) pushDays ::
  "(date \<Rightarrow> 'a) \<Rightarrow> date \<Rightarrow> date \<Rightarrow> 'a list \<Rightarrow> 'a list option" where
  "pushDays f d to out =
     (if d \<le> to then pushDays f (addDays d 1) to (out @ [f d]) else Some out)"

section \<open>Completion\<close>

text \<open>
  The percentage is the one place where the program divides counters, and the result
  depends on the rounding of binary64 arithmetic, which is therefore modelled here:
  \<open>fl q\<close> is the binary64 number nearest to the rational \<open>q\<close>, ties to the even
  significand, for \<open>q\<close> in the normal range (which every quotient of counters and its
  hundredfold lies in). \<open>bits n\<close> is the number of binary digits of \<open>n\<close>, and
  \<open>float_exponent q\<close> is the exponent \<open>e\<close> with \<open>2 ^ e \<le> |q| < 2 ^ (e + 1)\<close>.
\<close>

fun bits :: "nat \<Rightarrow> nat" where
  "bits n = (if n = 0 then 0 else Suc (bits (n div 2)))"

declare bits.simps [simp del]

definition float_exponent :: "rat \<Rightarrow> int" where
  "float_exponent q =
     (if 1 \<le> \<bar>q\<bar> then int (bits (nat \<lfloor>\<bar>q\<bar>\<rfloor>)) - 1
      else - int (bits (nat (\<lceil>1 / \<bar>q\<bar>\<rceil> - 1))))"

definition round_half_even :: "rat \<Rightarrow> int" where
  "round_half_even x =
     (let n = \<lfloor>x\<rfloor>; r = x - of_int n
      in if r < 1 / 2 then n else if 1 / 2 < r then n + 1 else if even n then n else n + 1)"

definition fl :: "rat \<Rightarrow> rat" where
  "fl q = (if q = 0 then 0
           else let u = 2 powi (float_exponent q - 52)
                in of_int (round_half_even (q / u)) * u)"

text \<open>\<^verbatim>\<open>Math.round\<close>: the nearest integer, a tie going up.\<close>

definition Math_round :: "rat \<Rightarrow> int" where
  "Math_round x = \<lfloor>x + 1 / 2\<rfloor>"

record completion =
  done_n :: nat
  total_n :: nat
  pct :: int

text \<open>
  A row of the checks table is a plain object: the map holds its own properties, and a
  name that is not an own property is looked up in \<^verbatim>\<open>Object.prototype\<close>. These are the
  names found there; the value under each of them is a function (an object for
  \<^verbatim>\<open>__proto__\<close>), which is truthy.
\<close>

definition Object_prototype_names :: "string list" where
  "Object_prototype_names =
     [''constructor'', ''hasOwnProperty'', ''isPrototypeOf'', ''propertyIsEnumerable'',
      ''toLocaleString'', ''toString'', ''valueOf'', ''__proto__'', ''__defineGetter__'',
      ''__defineSetter__'', ''__lookupGetter__'', ''__lookupSetter__'']"

text \<open>\<^verbatim>\<open>obj[key]\<close> is truthy, for an object whose own properties are booleans.\<close>

definition truthyAt :: "(string \<rightharpoonup> bool) \<Rightarrow> string \<Rightarrow> bool" where
  "truthyAt obj key =
     (case obj key of
        Some b \<Rightarrow> b
      | None \<Rightarrow> key \<in> set Object_prototype_names)"

text \<open>\<^verbatim>\<open>checks[h.id]\<close> is truthy, for \<^verbatim>\<open>checks = habitChecksByDate[iso] ?? {}\<close>.\<close>

definition checked :: "app \<Rightarrow> iso \<Rightarrow> habit \<Rightarrow> bool" where
  "checked s i h =
     (let checks = (case habitChecksByDate s i of None \<Rightarrow> Map.empty | Some row \<Rightarrow> row)
      in truthyAt checks (id_habit h))"

text \<open>The body of the inner loop, on the counters \<^verbatim>\<open>done\<close> and \<^verbatim>\<open>total\<close>.\<close>

definition countHabit :: "app \<Rightarrow> iso \<Rightarrow> nat \<times> nat \<Rightarrow> habit \<Rightarrow> nat \<times> nat" where
  "countHabit s i acc h =
     (case acc of (dn, tot) \<Rightarrow> (if checked s i h then dn + 1 else dn, tot + 1))"

definition completionForRange :: "app \<Rightarrow> iso \<Rightarrow> iso \<Rightarrow> completion option" where
  "completionForRange s startIso endIsoInclusive =
     (let start = parseISODate startIso;
          end' = parseISODate endIsoInclusive
      in case pushDays toISODate (startOfDay start) end' [] of
           None \<Rightarrow> None
         | Some days \<Rightarrow>
             let habitsActive = activeHabits s
             in if habitsActive = [] then Some \<lparr> done_n = 0, total_n = 0, pct = 0 \<rparr>
                else
                  (case foldl (\<lambda>acc i. foldl (countHabit s i) acc habitsActive) (0, 0) days of
                     (dn, tot) \<Rightarrow>
                       Some \<lparr> done_n = dn, total_n = tot,
                              pct = (if tot \<noteq> 0
                                     then Math_round (fl (fl (of_nat dn / of_nat tot) * 100))
                                     else 0) \<rparr>))"

text \<open>
  The run of \<open>completionForRange\<close> in closed form, for the proofs: the dates its
  first loop pushes, and the pairs of such a date and an active habit that its second
  loop counts as done.
\<close>

definition loopDates :: "iso \<Rightarrow> iso \<Rightarrow> iso list" where
  "loopDates startIso endIsoInclusive =
     map (\<lambda>k. toISODate (MakeDate (Day (parseISODate startIso) + int k) noon))
       [0 ..< nat (Day (parseISODate endIsoInclusive) - Day (parseISODate startIso) + 1)]"

definition loopDone :: "app \<Rightarrow> iso list \<Rightarrow> nat" where
  "loopDone s dates =
     length (filter (\<lambda>(i, h). checked s i h) (List.product dates (activeHabits s)))"

section \<open>Visible dates\<close>

definition weekDays :: "date \<Rightarrow> date list" where
  "weekDays selectedDate = map (\<lambda>i. addDays (startOfISOWeek selectedDate) (int i)) [0 ..< 7]"

definition weekISOs :: "date \<Rightarrow> iso list" where
  "weekISOs selectedDate = map toISODate (weekDays selectedDate)"

definition monthDays :: "date \<Rightarrow> date list option" where
  "monthDays selectedDate =
     (let first = startOfMonth selectedDate;
          last' = endOfMonth selectedDate;
          gridStart = startOfISOWeek first;
          gridEnd = addDays (startOfISOWeek (addDays last' 6)) 6
      in pushDays startOfDay gridStart gridEnd [])"

definition visibleISOs :: "app \<Rightarrow> iso list option" where
  "visibleISOs s =
     (let selectedDate = parseISODate (selectedISO s)
      in case view s of
           WeekView \<Rightarrow> Some (weekISOs selectedDate)
         | MonthView \<Rightarrow> map_option (map toISODate) (monthDays selectedDate)
         | DayView \<Rightarrow> Some [selectedISO s])"

section \<open>The completion of the specification\<close>

text \<open>
  The calendar of the specification, independent of the date arithmetic of the program:
  leap years, the lengths of the months, the triples that are calendar dates, the date
  after a date, and the order of dates.
\<close>

definition leap_year :: "int \<Rightarrow> bool" where
  "leap_year y \<longleftrightarrow> y mod 4 = 0 \<and> (y mod 100 \<noteq> 0 \<or> y mod 400 = 0)"

definition days_in_month :: "int \<Rightarrow> int \<Rightarrow> int" where
  "days_in_month y m =
     (if m = 2 then (if leap_year y then 29 else 28)
      else if m = 4 \<or> m = 6 \<or> m = 9 \<or> m = 11 then 30 else 31)"

definition calendar_date :: "iso \<Rightarrow> bool" where
  "calendar_date i =
     (case i of (y, m, d) \<Rightarrow> 1 \<le> m \<and> m \<le> 12 \<and> 1 \<le> d \<and> d \<le> days_in_month y m)"

definition next_date :: "iso \<Rightarrow> iso" where
  "next_date i =
     (case i of (y, m, d) \<Rightarrow>
        if d < days_in_month y m then (y, m, d + 1)
        else if m < 12 then (y, m + 1, 1) else (y + 1, 1, 1))"

definition not_after :: "iso \<Rightarrow> iso \<Rightarrow> bool" where
  "not_after a b =
     (case a of (y, m, d) \<Rightarrow> case b of (y', m', d') \<Rightarrow>
        y < y' \<or> (y = y' \<and> (m < m' \<or> (m = m' \<and> d \<le> d'))))"

text \<open>
  A date in the form \<^verbatim>\<open>YYYY-MM-DD\<close> whose year has four significant digits: a calendar
  date of a year from 1000 to 9999.
\<close>

definition iso_date :: "iso \<Rightarrow> bool" where
  "iso_date i \<longleftrightarrow> calendar_date i \<and> 1000 \<le> fst i \<and> fst i \<le> 9999"

text \<open>
  The calendar dates of the inclusive range from \<open>a\<close> to \<open>b\<close>, in order: none when
  \<open>b\<close> lies before \<open>a\<close>.
\<close>

function spec_dates :: "iso \<Rightarrow> iso \<Rightarrow> iso list" where
  "spec_dates a b =
     (if calendar_date a \<and> calendar_date b \<and> not_after a b
      then a # spec_dates (next_date a) b else [])"
  by pat_completeness auto
termination
  by (relation "measure (\<lambda>(a, b). nat ((case b of (y, m, d) \<Rightarrow> 372 * y + 31 * m + d)
        - (case a of (y, m, d) \<Rightarrow> 372 * y + 31 * m + d) + 1))")
     (auto simp: calendar_date_def not_after_def next_date_def days_in_month_def
        split: if_splits)

declare spec_dates.simps [simp del]

text \<open>
  The check entry of a date and a habit: the value stored in the row of the date under
  the id of the habit, if there is one.
\<close>

definition check_entry :: "app \<Rightarrow> iso \<Rightarrow> habit \<Rightarrow> bool option" where
  "check_entry s i h =
     (case habitChecksByDate s i of None \<Rightarrow> None | Some row \<Rightarrow> row (id_habit h))"

text \<open>
  The pairs of a date and an active habit whose check entry is true, an absent entry
  counting as false.
\<close>

definition claimed_done :: "app \<Rightarrow> iso list \<Rightarrow> nat" where
  "claimed_done s dates =
     length (filter (\<lambda>(i, h). check_entry s i h = Some True)
       (List.product dates (activeHabits s)))"

text \<open>
  The same count where a pair without a check entry counts as well if the id of the
  habit is a name that every object inherits.
\<close>

definition spec_done :: "app \<Rightarrow> iso list \<Rightarrow> nat" where
  "spec_done s dates =
     length (filter (\<lambda>(i, h). check_entry s i h = Some True
                       \<or> check_entry s i h = None \<and> id_habit h \<in> set Object_prototype_names)
       (List.product dates (activeHabits s)))"

text \<open>The exact percentage \<open>round(done / total * 100)\<close>, 0 when the total is 0.\<close>

definition spec_pct :: "nat \<Rightarrow> nat \<Rightarrow> int" where
  "spec_pct dn tot =
     (if tot = 0 then 0 else \<lfloor>of_nat dn / (of_nat tot :: rat) * 100 + 1 / 2\<rfloor>)"

section \<open>Initial state\<close>

definition DEFAULT_HABITS :: "habit list" where
  "DEFAULT_HABITS =
     [ \<lparr> id_habit = ''h1'', name = ''Vatten'', active = True \<rparr>,
       \<lparr> id_habit = ''h2'', name = ''Tr'' @ [CHR 0xE4] @ ''ning'', active = True \<rparr>,
       \<lparr> id_habit = ''h3'', name = ''L'' @ [CHR 0xE4] @ ''s 20 min'', active = True \<rparr> ]"

text \<open>The initial values of the state hooks of \<^verbatim>\<open>App\<close>, for a given current date.\<close>

definition initialApp :: "iso \<Rightarrow> app" where
  "initialApp today =
     \<lparr> selectedISO = today, view = DayView, habits = DEFAULT_HABITS,
       habitChecksByDate = Map.empty, eventsByDate = Map.empty,
       eventModalOpen = False, eventModalISO = today, editingEventId = None,
       formTime = ''09:00'', formTitle = [], formDuration = NumV (Fin 30),
       formColor = ''#93c5fd'', formNotes = [] \<rparr>"

section \<open>An example state\<close>

definition exampleUid :: "nat \<Rightarrow> string" where
  "exampleUid n = replicate (Suc n) CHR ''u''"

definition exampleDay :: iso where
  "exampleDay = (2024, 1, 15)"

definition exampleEvents :: "event list" where
  "exampleEvents =
     [ \<lparr> id_event = ''e1'', type_event = Custom, habitId = None, title = ''Gym'',
         startMin = Fin 540, durationMin = Some (Fin 45), color = ''#93c5fd'',
         notes_event = ''legs'' \<rparr>,
       \<lparr> id_event = ''e2'', type_event = Habit, habitId = Some ''h1'', title = ''Vatten'',
         startMin = Fin 480, durationMin = Some (Fin 30), color = ''#bbf7d0'',
         notes_event = [] \<rparr>,
       \<lparr> id_event = ''e3'', type_event = Habit, habitId = Some ''h2'', title = ''Run'',
         startMin = Fin 525, durationMin = Some (Fin 30), color = ''#bbf7d0'',
         notes_event = [] \<rparr> ]"

definition exampleApp :: app where
  "exampleApp =
     (initialApp exampleDay)
       \<lparr> habitChecksByDate := [exampleDay \<mapsto> [''h1'' \<mapsto> True, ''h2'' \<mapsto> True]],
         eventsByDate := [exampleDay \<mapsto> exampleEvents] \<rparr>"

text \<open>
  Two states for the completion: two habits over three days, the first habit checked on
  each day; and eight habits over five days, all eight checked on the first two days
  and seven on the third: 23 checks in all.
\<close>

definition threeDayApp :: app where
  "threeDayApp =
     (initialApp exampleDay)
       \<lparr> habits := take 2 DEFAULT_HABITS,
         habitChecksByDate :=
           [(2024, 1, 15) \<mapsto> [''h1'' \<mapsto> True],
            (2024, 1, 16) \<mapsto> [''h1'' \<mapsto> True],
            (2024, 1, 17) \<mapsto> [''h1'' \<mapsto> True]] \<rparr>"

text \<open>A state whose one habit has an id that every object inherits, and no check.\<close>

definition inheritedApp :: app where
  "inheritedApp =
     (initialApp exampleDay)
       \<lparr> habits := [\<lparr> id_habit = ''toString'', name = ''Read'', active = True \<rparr>] \<rparr>"

definition eightHabits :: "habit list" where
  "eightHabits = map (\<lambda>c. \<lparr> id_habit = [c], name = [c], active = True \<rparr>) ''abcdefgh''"

definition fiveDayApp :: app where
  "fiveDayApp =
     (initialApp exampleDay)
       \<lparr> habits := eightHabits,
         habitChecksByDate :=
           [(2024, 1, 15) \<mapsto> map_of (map (\<lambda>c. ([c], True)) ''abcdefgh''),
            (2024, 1, 16) \<mapsto> map_of (map (\<lambda>c. ([c], True)) ''abcdefgh''),
            (2024, 1, 17) \<mapsto> map_of (map (\<lambda>c. ([c], True)) ''abcdefg'')] \<rparr>"

section \<open>Day numbers of dates\<close>

text \<open>
  For the proofs: the day number of a date, and the day number of the first day of the
  month with index \<open>12 * year + month - 1\<close>.
\<close>

definition dayNumber :: "iso \<Rightarrow> int" where
  "dayNumber i = (case i of (y, m, d) \<Rightarrow> days_from_civil y m d)"

definition monthStart :: "int \<Rightarrow> int" where
  "monthStart k = days_from_civil (k div 12) (k mod 12 + 1) 1"

section \<open>Properties of the event store\<close>

lemma map_unmatched:
  "\<forall>e \<in> set es. id_event e \<noteq> eventId \<Longrightarrow>
     map (\<lambda>e. if id_event e = eventId then f e else e) es = es"
  by (induction es) auto

lemma filter_unmatched:
  "\<forall>e \<in> set es. id_event e \<noteq> eventId \<Longrightarrow> filter (\<lambda>e. id_event e \<noteq> eventId) es = es"
  by (induction es) auto

text \<open>
  C7. Moving a block that is present on a date: every block of that date with the
  given id gets the new start minute and keeps its id, type, habit id, title, duration,
  colour and notes; every other block of the date, every other date, the habits and the
  checks are unchanged.
\<close>

theorem moveEventToTime_frame:
  assumes "eventsByDate s i = Some es" and "b \<in> set es" and "id_event b = eventId"
  shows "(\<exists>es'. eventsByDate (moveEventToTime i eventId m s) i = Some es'
           \<and> length es' = length es
           \<and> (\<forall>k < length es.
                 (id_event (es ! k) = eventId \<longrightarrow>
                    startMin (es' ! k) = m
                  \<and> id_event (es' ! k) = id_event (es ! k)
                  \<and> type_event (es' ! k) = type_event (es ! k)
                  \<and> habitId (es' ! k) = habitId (es ! k)
                  \<and> title (es' ! k) = title (es ! k)
                  \<and> durationMin (es' ! k) = durationMin (es ! k)
                  \<and> color (es' ! k) = color (es ! k)
                  \<and> notes_event (es' ! k) = notes_event (es ! k))
               \<and> (id_event (es ! k) \<noteq> eventId \<longrightarrow> es' ! k = es ! k)))
       \<and> (\<forall>d. d \<noteq> i \<longrightarrow> eventsByDate (moveEventToTime i eventId m s) d = eventsByDate s d)
       \<and> habits (moveEventToTime i eventId m s) = habits s
       \<and> habitChecksByDate (moveEventToTime i eventId m s) = habitChecksByDate s"
  using assms
  by (simp add: moveEventToTime_def updateEventForDay_def orEmpty_def merge_def noPatch_def)

text \<open>
  The example of the specification: a block at 540 moved to 600, beside a second block
  that stays.
\<close>

theorem moveEventToTime_frame_witness:
  "map startMin
     (orEmpty (eventsByDate (moveEventToTime exampleDay ''e1'' (Fin 600) exampleApp)) exampleDay)
     = [Fin 600, Fin 480, Fin 525]
   \<and> map title
     (orEmpty (eventsByDate (moveEventToTime exampleDay ''e1'' (Fin 600) exampleApp)) exampleDay)
     = [''Gym'', ''Vatten'', ''Run'']"
proof -
  have stored: "eventsByDate exampleApp exampleDay = Some exampleEvents"
    by (simp add: exampleApp_def)
  have present: "hd exampleEvents \<in> set exampleEvents"
    by (simp add: exampleEvents_def)
  have ident: "id_event (hd exampleEvents) = ''e1''"
    by (simp add: exampleEvents_def)
  from moveEventToTime_frame [OF stored present ident, of "Fin 600"]
  obtain es' where
    at: "eventsByDate (moveEventToTime exampleDay ''e1'' (Fin 600) exampleApp) exampleDay = Some es'"
    and len: "length es' = length exampleEvents"
    and each: "\<forall>k < length exampleEvents.
        (id_event (exampleEvents ! k) = ''e1'' \<longrightarrow>
           startMin (es' ! k) = Fin 600 \<and> title (es' ! k) = title (exampleEvents ! k))
      \<and> (id_event (exampleEvents ! k) \<noteq> ''e1'' \<longrightarrow> es' ! k = exampleEvents ! k)"
    by auto
  from len obtain x y z where es': "es' = [x, y, z]"
    by (auto simp: exampleEvents_def length_Suc_conv)
  from each [rule_format, of 0] each [rule_format, of 1] each [rule_format, of 2]
  have "startMin x = Fin 600" "title x = ''Gym''"
       "y = exampleEvents ! 1" "z = exampleEvents ! 2"
    by (simp_all add: es' exampleEvents_def)
  then show ?thesis
    by (simp add: at es' orEmpty_def exampleEvents_def)
qed

section \<open>Properties of the event dialog\<close>

lemma trim_ws:
  assumes "\<forall>c \<in> set t. is_ws c"
  shows "trim t = []"
  using assms by (auto simp: trim_def dest: set_dropWhileD)

text \<open>
  C8. Saving the dialog while the title is empty or consists of white space only
  returns the state as it is: no block is created or modified, no collection changes,
  and the dialog stays as it was.
\<close>

theorem saveEventModal_blank_title:
  assumes "\<forall>c \<in> set (formTitle s). is_ws c"
  shows "saveEventModal Number newId s = s"
  using trim_ws [OF assms] by (simp add: saveEventModal_def)

theorem saveEventModal_blank_title_witness:
  "saveEventModal (\<lambda>t. NaN) ''u1''
     (exampleApp \<lparr> eventModalOpen := True, formTitle := ''  '' \<rparr>)
   = exampleApp \<lparr> eventModalOpen := True, formTitle := ''  '' \<rparr>"
  by (rule saveEventModal_blank_title) (simp add: is_ws_def)

subsection \<open>The time field\<close>

lemma split_on_no_sep: "c \<notin> set t \<Longrightarrow> split_on c t = [t]"
  by (induction t) auto

text \<open>With both components present, a component that converts to NaN gives 08:00.\<close>

lemma hhmmToMinutes_fallback:
  assumes "split_on CHR '':'' hhmm = hh # mm # rest"
    and "Number hh = NaN \<or> Number mm = NaN"
  shows "hhmmToMinutes Number hhmm = Fin 480"
  using assms by (auto simp: hhmmToMinutes_def element_def Number_isNaN_def)

lemma hhmmToMinutes_no_sep:
  assumes "CHR '':'' \<notin> set hhmm"
  shows "hhmmToMinutes Number hhmm = (if Number hhmm = NaN then Fin 480 else NaN)"
  using assms
  by (simp add: hhmmToMinutes_def split_on_no_sep element_def Number_isNaN_def operand_def)

text \<open>
  C10, where the code departs from it. A time string without a colon splits into one
  component, so the minutes are \<^verbatim>\<open>undefined\<close>, which \<^verbatim>\<open>Number.isNaN\<close> does not
  report: unless the whole string converts to NaN, \<open>hhmmToMinutes\<close> returns NaN, not
  480, and saving with a non-empty title stores NaN as the start minute: of the new
  block when an event is added, of the edited block when one is edited.
\<close>

theorem saveEventModal_time_without_colon:
  assumes "trim (formTitle s) \<noteq> []"
    and "CHR '':'' \<notin> set (formTime s)" and "Number (formTime s) \<noteq> NaN"
  shows "hhmmToMinutes Number (formTime s) = NaN
       \<and> (editingEventId s = None \<or> editingEventId s = Some [] \<longrightarrow>
            (\<exists>b. eventsByDate (saveEventModal Number newId s) (eventModalISO s)
                    = Some (orEmpty (eventsByDate s) (eventModalISO s) @ [b])
                 \<and> id_event b = newId \<and> startMin b = NaN))
       \<and> (\<forall>eventId. editingEventId s = Some eventId \<and> eventId \<noteq> [] \<longrightarrow>
            (\<exists>es'. eventsByDate (saveEventModal Number newId s) (eventModalISO s) = Some es'
                 \<and> length es' = length (orEmpty (eventsByDate s) (eventModalISO s))
                 \<and> (\<forall>k < length es'.
                       id_event (orEmpty (eventsByDate s) (eventModalISO s) ! k) = eventId \<longrightarrow>
                         startMin (es' ! k) = NaN)))"
proof -
  have nan: "hhmmToMinutes Number (formTime s) = NaN"
    using assms by (simp add: hhmmToMinutes_no_sep)
  have add: "editingEventId s = None \<or> editingEventId s = Some [] \<longrightarrow>
            (\<exists>b. eventsByDate (saveEventModal Number newId s) (eventModalISO s)
                    = Some (orEmpty (eventsByDate s) (eventModalISO s) @ [b])
                 \<and> id_event b = newId \<and> startMin b = NaN)"
    using assms(1) nan by (auto simp: saveEventModal_def Let_def addEventForDay_def)
  have edit: "\<forall>eventId. editingEventId s = Some eventId \<and> eventId \<noteq> [] \<longrightarrow>
            (\<exists>es'. eventsByDate (saveEventModal Number newId s) (eventModalISO s) = Some es'
                 \<and> length es' = length (orEmpty (eventsByDate s) (eventModalISO s))
                 \<and> (\<forall>k < length es'.
                       id_event (orEmpty (eventsByDate s) (eventModalISO s) ! k) = eventId \<longrightarrow>
                         startMin (es' ! k) = NaN))"
    using assms(1) nan
    by (auto simp: saveEventModal_def Let_def updateEventForDay_def merge_def)
  from nan add edit show ?thesis
    by blast
qed

text \<open>
  The time field cleared: the empty string converts to 0, and the block appended to the
  three blocks of the example day starts at NaN.
\<close>

theorem saveEventModal_time_without_colon_witness:
  "map startMin (orEmpty (eventsByDate
      (saveEventModal (\<lambda>t. if t = [] then Fin 0 else NaN) ''u1''
         (exampleApp \<lparr> formTime := [], formTitle := ''Gym'' \<rparr>))) exampleDay)
   = [Fin 540, Fin 480, Fin 525, NaN]"
proof -
  let ?s = "exampleApp \<lparr> formTime := [], formTitle := ''Gym'' \<rparr>"
  let ?N = "\<lambda>t :: string. if t = [] then Fin 0 else NaN"
  have 1: "trim (formTitle ?s) \<noteq> []"
    by (simp add: trim_def is_ws_def)
  have 2: "CHR '':'' \<notin> set (formTime ?s)"
    by simp
  have 3: "?N (formTime ?s) \<noteq> NaN"
    by simp
  have 4: "editingEventId ?s = None"
    by (simp add: exampleApp_def initialApp_def)
  have iso: "eventModalISO ?s = exampleDay"
    by (simp add: exampleApp_def initialApp_def)
  have ev: "orEmpty (eventsByDate ?s) exampleDay = exampleEvents"
    by (simp add: exampleApp_def orEmpty_def)
  from saveEventModal_time_without_colon
         [where s = ?s and Number = ?N and newId = "''u1''", OF 1 2 3, unfolded iso ev] 4
  obtain b where "eventsByDate (saveEventModal ?N ''u1'' ?s) exampleDay = Some (exampleEvents @ [b])"
    and "startMin b = NaN"
    by blast
  then show ?thesis
    by (simp add: orEmpty_def exampleEvents_def)
qed

section \<open>Unknown block ids\<close>

text \<open>
  C9, as the code has it. Updating, deleting or moving a block id that the date's
  collection does not hold leaves the blocks read for every date as they were, and
  changes nothing else in the state. The date's key is written in any case: a date that
  had a stored collection keeps it and the state is unchanged; a date that had none gets
  the empty collection stored.
\<close>

theorem unknown_id_noop:
  assumes "\<forall>e \<in> set (orEmpty (eventsByDate s) i). id_event e \<noteq> eventId"
  shows "updateEventForDay i eventId p s
           = s\<lparr> eventsByDate := (eventsByDate s)(i \<mapsto> orEmpty (eventsByDate s) i) \<rparr>
       \<and> deleteEventForDay i eventId s
           = s\<lparr> eventsByDate := (eventsByDate s)(i \<mapsto> orEmpty (eventsByDate s) i) \<rparr>
       \<and> moveEventToTime i eventId m s
           = s\<lparr> eventsByDate := (eventsByDate s)(i \<mapsto> orEmpty (eventsByDate s) i) \<rparr>
       \<and> (\<forall>d. orEmpty ((eventsByDate s)(i \<mapsto> orEmpty (eventsByDate s) i)) d
                = orEmpty (eventsByDate s) d)
       \<and> (eventsByDate s i \<noteq> None \<longrightarrow>
            s\<lparr> eventsByDate := (eventsByDate s)(i \<mapsto> orEmpty (eventsByDate s) i) \<rparr> = s)"
proof -
  have u: "updateEventForDay i eventId q s
           = s\<lparr> eventsByDate := (eventsByDate s)(i \<mapsto> orEmpty (eventsByDate s) i) \<rparr>" for q
    by (simp add: updateEventForDay_def map_unmatched [OF assms])
  have d: "deleteEventForDay i eventId s
           = s\<lparr> eventsByDate := (eventsByDate s)(i \<mapsto> orEmpty (eventsByDate s) i) \<rparr>"
    by (simp add: deleteEventForDay_def filter_unmatched [OF assms])
  have r: "orEmpty ((eventsByDate s)(i \<mapsto> orEmpty (eventsByDate s) i)) d
                = orEmpty (eventsByDate s) d" for d
    by (simp add: orEmpty_def)
  have k: "eventsByDate s i \<noteq> None \<Longrightarrow>
            s\<lparr> eventsByDate := (eventsByDate s)(i \<mapsto> orEmpty (eventsByDate s) i) \<rparr> = s"
    by (auto simp: orEmpty_def map_upd_triv)
  show ?thesis
    using u d r k by (simp add: moveEventToTime_def)
qed

text \<open>On a date with a stored collection the three operations return the state itself.\<close>

theorem unknown_id_noop_witness:
  "updateEventForDay exampleDay ''zz'' noPatch exampleApp = exampleApp
   \<and> deleteEventForDay exampleDay ''zz'' exampleApp = exampleApp
   \<and> moveEventToTime exampleDay ''zz'' (Fin 600) exampleApp = exampleApp"
proof -
  have unknown: "\<forall>e \<in> set (orEmpty (eventsByDate exampleApp) exampleDay). id_event e \<noteq> ''zz''"
    by (simp add: exampleApp_def exampleEvents_def orEmpty_def)
  have stored: "eventsByDate exampleApp exampleDay \<noteq> None"
    by (simp add: exampleApp_def)
  from unknown_id_noop [OF unknown, of noPatch "Fin 600"] stored show ?thesis
    by simp
qed

text \<open>
  C9 as stated fails on a date without a stored collection: in the initial state, whose
  event table is empty, each of the three operations stores an empty collection for the
  date, so the state is not the one before.
\<close>

theorem unknown_id_noop_counterexample:
  "eventsByDate (initialApp exampleDay) exampleDay = None
   \<and> updateEventForDay exampleDay ''zz'' noPatch (initialApp exampleDay) \<noteq> initialApp exampleDay
   \<and> deleteEventForDay exampleDay ''zz'' (initialApp exampleDay) \<noteq> initialApp exampleDay
   \<and> moveEventToTime exampleDay ''zz'' (Fin 600) (initialApp exampleDay) \<noteq> initialApp exampleDay
   \<and> eventsByDate (deleteEventForDay exampleDay ''zz'' (initialApp exampleDay)) exampleDay
       = Some []"
proof -
  have none: "eventsByDate (initialApp exampleDay) exampleDay = None"
    by (simp add: initialApp_def)
  have u: "eventsByDate (updateEventForDay exampleDay ''zz'' noPatch (initialApp exampleDay))
             exampleDay = Some []"
    by (simp add: updateEventForDay_def orEmpty_def initialApp_def)
  have d: "eventsByDate (deleteEventForDay exampleDay ''zz'' (initialApp exampleDay))
             exampleDay = Some []"
    by (simp add: deleteEventForDay_def orEmpty_def initialApp_def)
  have m: "eventsByDate (moveEventToTime exampleDay ''zz'' (Fin 600) (initialApp exampleDay))
             exampleDay = Some []"
    by (simp add: moveEventToTime_def updateEventForDay_def orEmpty_def initialApp_def)
  from none u d m show ?thesis
    by auto
qed

section \<open>Deleting a habit\<close>

text \<open>
  C2. \<open>deleteHabit i\<close> leaves no habit with id \<open>i\<close> in the registry and keeps the
  other habits, in order; in the checks table every stored date stays stored, its row
  loses the entry of \<open>i\<close> and keeps every other entry; in the event table every stored
  date stays stored and its collection is the old one without the blocks that have type
  habit and habit id \<open>i\<close>: every custom block and every block of another habit stays,
  in order.
\<close>

theorem deleteHabit_cascade:
  "(\<forall>h \<in> set (habits (deleteHabit i s)). id_habit h \<noteq> i)
 \<and> habits (deleteHabit i s) = filter (\<lambda>h. id_habit h \<noteq> i) (habits s)
 \<and> (\<forall>d. habitChecksByDate (deleteHabit i s) d = None \<longleftrightarrow> habitChecksByDate s d = None)
 \<and> (\<forall>d row. habitChecksByDate s d = Some row \<longrightarrow>
       (\<exists>row'. habitChecksByDate (deleteHabit i s) d = Some row'
              \<and> row' i = None \<and> (\<forall>j. j \<noteq> i \<longrightarrow> row' j = row j)))
 \<and> (\<forall>d. eventsByDate (deleteHabit i s) d = None \<longleftrightarrow> eventsByDate s d = None)
 \<and> (\<forall>d es. eventsByDate s d = Some es \<longrightarrow>
       (\<exists>es'. eventsByDate (deleteHabit i s) d = Some es'
             \<and> (\<forall>e \<in> set es'. \<not> (type_event e = Habit \<and> habitId e = Some i))
             \<and> es' = filter (\<lambda>e. \<not> (type_event e = Habit \<and> habitId e = Some i)) es
             \<and> (\<forall>e \<in> set es. type_event e = Custom \<longrightarrow> e \<in> set es')
             \<and> (\<forall>e \<in> set es. habitId e \<noteq> Some i \<longrightarrow> e \<in> set es')))"
  by (auto simp: deleteHabit_def split: option.splits)

theorem deleteHabit_cascade_witness:
  "map id_habit (habits (deleteHabit ''h1'' exampleApp)) = [''h2'', ''h3'']
   \<and> map id_event (orEmpty (eventsByDate (deleteHabit ''h1'' exampleApp)) exampleDay)
       = [''e1'', ''e3'']
   \<and> map_option (\<lambda>row. (row ''h1'', row ''h2''))
       (habitChecksByDate (deleteHabit ''h1'' exampleApp) exampleDay)
       = Some (None, Some True)"
proof -
  have ev: "eventsByDate exampleApp exampleDay = Some exampleEvents"
    by (simp add: exampleApp_def)
  have ch: "habitChecksByDate exampleApp exampleDay = Some [''h1'' \<mapsto> True, ''h2'' \<mapsto> True]"
    by (simp add: exampleApp_def)
  have hs: "habits exampleApp = DEFAULT_HABITS"
    by (simp add: exampleApp_def initialApp_def)
  note c = deleteHabit_cascade [of "''h1''" exampleApp]
  note c2 = c [THEN conjunct2]
  note c4 = c2 [THEN conjunct2, THEN conjunct2]
  note c6 = c4 [THEN conjunct2, THEN conjunct2]
  from c2 [THEN conjunct1]
  have 1: "map id_habit (habits (deleteHabit ''h1'' exampleApp)) = [''h2'', ''h3'']"
    by (simp add: hs DEFAULT_HABITS_def)
  from c6 [rule_format, OF ev] obtain es' where
    "eventsByDate (deleteHabit ''h1'' exampleApp) exampleDay = Some es'"
    "es' = filter (\<lambda>e. \<not> (type_event e = Habit \<and> habitId e = Some ''h1'')) exampleEvents"
    by blast
  then have 2: "map id_event (orEmpty (eventsByDate (deleteHabit ''h1'' exampleApp)) exampleDay)
       = [''e1'', ''e3'']"
    by (simp add: orEmpty_def exampleEvents_def)
  from c4 [THEN conjunct1, rule_format, OF ch] obtain row' where
    "habitChecksByDate (deleteHabit ''h1'' exampleApp) exampleDay = Some row'"
    "row' ''h1'' = None"
    "\<forall>j. j \<noteq> ''h1'' \<longrightarrow> row' j = [''h1'' \<mapsto> True, ''h2'' \<mapsto> True] j"
    by blast
  then have 3: "map_option (\<lambda>row. (row ''h1'', row ''h2''))
       (habitChecksByDate (deleteHabit ''h1'' exampleApp) exampleDay) = Some (None, Some True)"
    by simp
  from 1 2 3 show ?thesis
    by simp
qed

section \<open>Properties of the default habit blocks\<close>

lemma orEmpty_upd: "orEmpty (m(i \<mapsto> es)) j = (if j = i then es else orEmpty m j)"
  by (simp add: orEmpty_def)


lemma newBlocks_Nil: "newBlocks uid k c hs = [] \<longleftrightarrow> hs = []"
  by (cases hs) auto


lemma newBlocks_habitId: "map habitId (newBlocks uid k c hs) = map (\<lambda>h. Some (id_habit h)) hs"
  by (induction hs arbitrary: k c) auto

lemma filter_newBlocks:
  "filter (\<lambda>e. type_event e = Habit) (newBlocks uid k c hs) = newBlocks uid k c hs"
  by (induction hs arbitrary: k c) auto

lemma missing_mem:
  "h \<in> set (missingHabits act existing) \<longleftrightarrow>
     h \<in> set act \<and> Some (id_habit h) \<notin> habitId ` set (filter (\<lambda>e. type_event e = Habit) existing)"
  by (simp add: missingHabits_def)

text \<open>Once the new blocks are appended no active habit is missing.\<close>

lemma missing_after:
  "missingHabits act (existing @ newBlocks uid k c (missingHabits act existing)) = []"
proof -
  let ?m = "missingHabits act existing"
  have ids: "habitId ` set (filter (\<lambda>e. type_event e = Habit) (existing @ newBlocks uid k c ?m))
      = habitId ` set (filter (\<lambda>e. type_event e = Habit) existing)
        \<union> (\<lambda>h. Some (id_habit h)) ` set ?m"
    using newBlocks_habitId [of uid k c ?m, THEN arg_cong, of set]
    by (simp add: filter_newBlocks image_Un)
  have "h \<notin> set (missingHabits act (existing @ newBlocks uid k c ?m))" for h
    unfolding missing_mem [of h act "existing @ newBlocks uid k c ?m"] ids
    using missing_mem [of h act existing] by blast
  then show ?thesis
    by (meson last_in_set)
qed

text \<open>The loop body without its dead branch: new blocks exist whenever a habit is missing.\<close>

lemma ensureDate_eq:
  "ensureDate uid act (next, k, ch) i =
     (if missingHabits act (orEmpty next i) = [] then (next, k, ch)
      else (next(i \<mapsto> orEmpty next i @
                newBlocks uid k
                  (snapToTimeGrid (lastEnd (filter (\<lambda>e. type_event e = Habit) (orEmpty next i))))
                  (missingHabits act (orEmpty next i))),
            k + length (missingHabits act (orEmpty next i)), True))"
  by (simp add: ensureDate_def Let_def newBlocks_Nil)

lemma ensureDate_covered:
  "ensureDate uid act (next, k, ch) i = (next', k', ch') \<Longrightarrow>
     missingHabits act (orEmpty next' i) = []"
  by (auto simp: ensureDate_eq missing_after orEmpty_upd split: if_splits)

lemma ensureDate_idle:
  "missingHabits act (orEmpty next i) = [] \<Longrightarrow> ensureDate uid act (next, k, ch) i = (next, k, ch)"
  by (simp add: ensureDate_eq)

lemma ensureDate_keeps:
  "missingHabits act (orEmpty next j) = [] \<Longrightarrow>
   ensureDate uid act (next, k, ch) i = (next', k', ch') \<Longrightarrow>
     missingHabits act (orEmpty next' j) = []"
  by (cases "i = j") (auto simp: ensureDate_eq orEmpty_upd split: if_splits)

lemma ensureDate_flag:
  "ensureDate uid act (next, k, ch) i = (next', k', ch') \<Longrightarrow>
     (ch \<longrightarrow> ch') \<and> (\<not> ch' \<longrightarrow> next' = next)"
  by (auto simp: ensureDate_eq split: if_splits)

text \<open>
  The loop over the dates: a date that misses no habit stays so, every date of the list
  misses no habit at the end, and the table is the initial one unless \<open>changed\<close> is set.
\<close>

lemma fold_covered:
  "foldl (ensureDate uid act) (next, k, ch) isos = (next', k', ch') \<Longrightarrow>
     (\<forall>j. missingHabits act (orEmpty next j) = [] \<longrightarrow> missingHabits act (orEmpty next' j) = [])
   \<and> (\<forall>i \<in> set isos. missingHabits act (orEmpty next' i) = [])
   \<and> (ch \<longrightarrow> ch') \<and> (\<not> ch' \<longrightarrow> next' = next)"
proof (induction isos arbitrary: "next" k ch)
  case Nil
  then show ?case by simp
next
  case (Cons i isos)
  obtain n1 k1 c1 where step: "ensureDate uid act (next, k, ch) i = (n1, k1, c1)"
    by (cases "ensureDate uid act (next, k, ch) i") auto
  with Cons.prems have rest: "foldl (ensureDate uid act) (n1, k1, c1) isos = (next', k', ch')"
    by simp
  note ih = Cons.IH [OF rest]
  have keep1: "missingHabits act (orEmpty next j) = [] \<Longrightarrow> missingHabits act (orEmpty n1 j) = []" for j
    by (rule ensureDate_keeps [OF _ step])
  have keep2: "missingHabits act (orEmpty n1 j) = [] \<Longrightarrow> missingHabits act (orEmpty next' j) = []" for j
    using ih by blast
  have here: "missingHabits act (orEmpty next' i) = []"
    by (rule keep2 [OF ensureDate_covered [OF step]])
  have there: "\<forall>j \<in> set isos. missingHabits act (orEmpty next' j) = []"
    using ih by blast
  have flags: "(ch \<longrightarrow> ch') \<and> (\<not> ch' \<longrightarrow> next' = next)"
    using ensureDate_flag [OF step] ih by blast
  show ?case
    using keep1 keep2 here there flags by simp
qed

lemma fold_idle:
  "\<forall>i \<in> set isos. missingHabits act (orEmpty next i) = [] \<Longrightarrow>
     foldl (ensureDate uid act) (next, k, ch) isos = (next, k, ch)"
  by (induction isos) (auto simp: ensureDate_idle)

text \<open>
  C3. Running \<open>ensureDefaultHabitBlocksForDates\<close> a second time on the same dates,
  right after the first run, returns the state of the first run and draws no identifier,
  whatever identifiers the second run would have been given.
\<close>

theorem ensureDefaultHabitBlocksForDates_idempotent:
  "ensureDefaultHabitBlocksForDates uid' isos (ensureDefaultHabitBlocksForDates uid isos sk)
     = ensureDefaultHabitBlocksForDates uid isos sk"
proof (cases sk)
  case (Pair s k)
  show ?thesis
  proof (cases "activeHabits s = [] \<or> isos = []")
    case True
    then show ?thesis
      by (auto simp: ensureDefaultHabitBlocksForDates_def Pair)
  next
    case False
    obtain n1 k1 c1 where
      run: "foldl (ensureDate uid (activeHabits s)) (eventsByDate s, k, False) isos = (n1, k1, c1)"
      by (cases "foldl (ensureDate uid (activeHabits s)) (eventsByDate s, k, False) isos") auto
    from fold_covered [OF run]
    have cov: "\<forall>i \<in> set isos. missingHabits (activeHabits s) (orEmpty n1 i) = []"
      and same: "\<not> c1 \<Longrightarrow> n1 = eventsByDate s"
      by auto
    let ?s1 = "s\<lparr> eventsByDate := (if c1 then n1 else eventsByDate s) \<rparr>"
    have first: "ensureDefaultHabitBlocksForDates uid isos sk = (?s1, k1)"
      using False run by (simp add: ensureDefaultHabitBlocksForDates_def Pair)
    have ev: "eventsByDate ?s1 = n1"
      using same by auto
    have act: "activeHabits ?s1 = activeHabits s"
      by (simp add: activeHabits_def)
    have "foldl (ensureDate uid' (activeHabits s)) (n1, k1, False) isos = (n1, k1, False)"
      by (rule fold_idle [OF cov])
    then have "ensureDefaultHabitBlocksForDates uid' isos (?s1, k1) = (?s1, k1)"
      using False ev act by (simp add: ensureDefaultHabitBlocksForDates_def)
    with first show ?thesis
      by simp
  qed
qed

theorem ensureDefaultHabitBlocksForDates_idempotent_witness:
  "ensureDefaultHabitBlocksForDates exampleUid [exampleDay, exampleDay]
     (ensureDefaultHabitBlocksForDates exampleUid [exampleDay, exampleDay] (exampleApp, 0))
   = ensureDefaultHabitBlocksForDates exampleUid [exampleDay, exampleDay] (exampleApp, 0)"
  by (rule ensureDefaultHabitBlocksForDates_idempotent)

subsection \<open>Placement\<close>











section \<open>Properties of the calendar date math\<close>

lemma Day_MakeDate: "0 \<le> tm \<Longrightarrow> tm < msPerDay \<Longrightarrow> Day (MakeDate n tm) = n"
  by (simp add: Day_def MakeDate_def msPerDay_def)

lemma Day_noon: "Day (MakeDate n noon) = n"
  by (rule Day_MakeDate) (simp_all add: noon_def msPerDay_def)

lemma TimeWithinDay_range: "0 \<le> TimeWithinDay t" "TimeWithinDay t < msPerDay"
  by (simp_all add: TimeWithinDay_def msPerDay_def)

text \<open>
  The two calendar functions agree: the day number of the year, month and day of a day
  number is that day number, and the month lies in 1..12.
\<close>

lemma days_from_civil_inverse:
  "(case civil_from_days z of (y, m, d) \<Rightarrow> days_from_civil y m d) = z
   \<and> (case civil_from_days z of (y, m, d) \<Rightarrow> 1 \<le> m \<and> m \<le> 12)"
proof -
  define z' where "z' = z + 719468"
  define era where "era = z' div 146097"
  define doe where "doe = z' mod 146097"
  define n100 where "n100 = min 3 (doe div 36524)"
  define d2 where "d2 = doe - n100 * 36524"
  define n4 where "n4 = d2 div 1461"
  define d3 where "d3 = d2 mod 1461"
  define n1 where "n1 = min 3 (d3 div 365)"
  define doy where "doy = d3 - n1 * 365"
  define yoe where "yoe = 100 * n100 + 4 * n4 + n1"
  define mp where "mp = (5 * doy + 2) div 153"
  define d where "d = doy - (153 * mp + 2) div 5 + 1"
  define m where "m = (if mp < 10 then mp + 3 else mp - 9)"
  define y where "y = yoe + era * 400"
  have cfd: "civil_from_days z = (if m \<le> 2 then y + 1 else y, m, d)"
    unfolding civil_from_days_def Let_def
      z'_def [symmetric] era_def [symmetric] doe_def [symmetric] n100_def [symmetric]
      d2_def [symmetric] n4_def [symmetric] d3_def [symmetric] n1_def [symmetric]
      doy_def [symmetric] yoe_def [symmetric] mp_def [symmetric] d_def [symmetric]
      m_def [symmetric] y_def [symmetric]
    by (rule refl)
  have doe: "0 \<le> doe" "doe < 146097"
    by (simp_all add: doe_def)
  have n100: "0 \<le> n100" "n100 \<le> 3"
    using doe by (simp_all add: n100_def)
  have d2: "0 \<le> d2" "d2 \<le> 36524"
    using doe unfolding d2_def n100_def by (auto simp: min_def)
  have n4: "0 \<le> n4" "n4 \<le> 24"
    using d2 unfolding n4_def by auto
  have d3: "0 \<le> d3" "d3 < 1461" "d2 = 1461 * n4 + d3"
    by (simp_all add: d3_def n4_def)
  have n1: "0 \<le> n1" "n1 \<le> 3"
    using d3 by (simp_all add: n1_def)
  have doy: "0 \<le> doy" "doy \<le> 365"
    using d3 unfolding doy_def n1_def by (auto simp: min_def)
  have mp: "0 \<le> mp" "mp \<le> 11"
    using doy unfolding mp_def by auto
  have yoe: "0 \<le> yoe" "yoe < 400"
    using n100 n4 n1 by (simp_all add: yoe_def)
  have q4: "yoe div 4 = 25 * n100 + n4"
    using n1 unfolding yoe_def by auto
  have q100: "yoe div 100 = n100"
    using n1 n4 unfolding yoe_def by auto
  have y': "(if m \<le> 2 then (if m \<le> 2 then y + 1 else y) - 1 else (if m \<le> 2 then y + 1 else y)) = y"
    by simp
  have era': "y div 400 = era" "y mod 400 = yoe"
    using yoe unfolding y_def by auto
  have mp': "(if m > 2 then m - 3 else m + 9) = mp"
    using mp unfolding m_def by auto
  have doy': "(153 * mp + 2) div 5 + d - 1 = doy"
    by (simp add: d_def)
  have doe': "yoe * 365 + yoe div 4 - yoe div 100 + doy = doe"
    unfolding q4 q100 using d3(3) by (simp add: yoe_def doy_def d2_def)
  have "days_from_civil (if m \<le> 2 then y + 1 else y) m d = era * 146097 + doe - 719468"
    unfolding days_from_civil_def Let_def y' era' mp' doy' doe' by (rule refl)
  also have "\<dots> = z"
    by (simp add: era_def doe_def z'_def)
  finally have inv: "days_from_civil (if m \<le> 2 then y + 1 else y) m d = z" .
  have m: "1 \<le> m" "m \<le> 12"
    using mp unfolding m_def by auto
  from inv m show ?thesis
    by (simp add: cfd)
qed

lemma days_from_civil_shift: "days_from_civil y m d = days_from_civil y m 1 + d - 1"
  by (simp add: days_from_civil_def Let_def)

text \<open>Setting the day of month moves within the frame of the current month.\<close>

lemma MakeDay_current:
  "MakeDay (YearFromTime t) (MonthFromTime t) dt = Day t - DateFromTime t + dt"
proof -
  obtain y m d where c: "civil_from_days (Day t) = (y, m, d)"
    by (cases "civil_from_days (Day t)") auto
  from days_from_civil_inverse [of "Day t"] c
  have inv: "days_from_civil y m d = Day t" and m: "1 \<le> m" "m \<le> 12"
    by auto
  from m have "(m - 1) div 12 = 0" "(m - 1) mod 12 + 1 = m"
    by auto
  then have "MakeDay y (m - 1) dt = days_from_civil y m 1 + dt - 1"
    by (simp add: MakeDay_def)
  also have "\<dots> = days_from_civil y m d - d + dt"
    using days_from_civil_shift [of y m d] by simp
  finally show ?thesis
    by (simp add: YearFromTime_def MonthFromTime_def DateFromTime_def c inv)
qed

lemma startOfDay_eq: "startOfDay t = MakeDate (Day t) noon"
  by (simp add: startOfDay_def setHours12_def)

lemma addDays_eq: "addDays t n = MakeDate (Day t + n) noon"
proof -
  have "Day (setDate t (getDate t + n)) = Day t + n"
    unfolding setDate_def getDate_def MakeDay_current
    using TimeWithinDay_range [of t] by (simp add: Day_MakeDate)
  then show ?thesis
    by (simp add: addDays_def setHours12_def)
qed

lemma Day_addDays: "Day (addDays t n) = Day t + n"
  by (simp add: addDays_eq Day_noon)

lemma Day_startOfDay: "Day (startOfDay t) = Day t"
  by (simp add: startOfDay_eq Day_noon)

lemma weekday_next:
  fixes D :: int
  shows "(D + 4) mod 7 = (if (D + 3) mod 7 = 6 then 0 else (D + 3) mod 7 + 1)"
proof -
  define r where "r = (D + 3) mod 7"
  have r: "0 \<le> r" "r < 7"
    by (simp_all add: r_def)
  have "D + 4 = (D + 3) + 1"
    by simp
  then have "(D + 4) mod 7 = (r + 1) mod 7"
    unfolding r_def by (simp only: mod_add_left_eq)
  also have "\<dots> = (if r = 6 then 0 else r + 1)"
    using r by simp
  finally show ?thesis
    by (simp add: r_def)
qed

lemma monday:
  fixes D :: int
  shows "(D - (D + 3) mod 7 + 4) mod 7 = 1"
proof -
  have "D - (D + 3) mod 7 + 4 = 1 + 7 * ((D + 3) div 7)"
    by (simp add: minus_mod_eq_mult_div algebra_simps)
  also have "\<dots> mod 7 = 1"
    by (simp only: mod_mult_self2) simp
  finally show ?thesis .
qed

lemma startOfISOWeek_eq:
  "startOfISOWeek t = MakeDate (Day t - (Day t + 3) mod 7) noon"
proof -
  have a: "startOfISOWeek t =
      addDays (startOfDay t)
        (if getDay (startOfDay t) = 0 then - 6 else 1 - getDay (startOfDay t))"
    by (simp add: startOfISOWeek_def Let_def)
  have b: "getDay (startOfDay t) = (Day t + 4) mod 7"
    by (simp add: getDay_def WeekDay_def Day_startOfDay)
  have c: "(if (Day t + 4) mod 7 = 0 then - 6 else 1 - (Day t + 4) mod 7) = - ((Day t + 3) mod 7)"
    using pos_mod_sign [of 7 "Day t + 3"] by (auto simp: weekday_next)
  show ?thesis
    unfolding a b c addDays_eq Day_startOfDay by simp
qed

text \<open>
  C6. For every date \<open>d\<close> the start of its ISO week is a Monday and not after the
  calendar day of \<open>d\<close>, which is not after the end of the week; the end of the week is
  exactly six days after the start; the start is six days before a Sunday and
  \<open>1 - weekday\<close> days from any other day.
\<close>

theorem iso_week_bounds:
  "getDay (startOfISOWeek d) = 1
 \<and> Day (startOfISOWeek d) \<le> Day d
 \<and> Day d \<le> Day (endOfISOWeek d)
 \<and> Day (endOfISOWeek d) = Day (startOfISOWeek d) + 6
 \<and> endOfISOWeek d = startOfISOWeek d + 6 * msPerDay
 \<and> (getDay d = 0 \<longrightarrow> Day (startOfISOWeek d) = Day d - 6)
 \<and> (getDay d \<noteq> 0 \<longrightarrow> Day (startOfISOWeek d) = Day d + (1 - getDay d))"
proof -
  have s: "Day (startOfISOWeek d) = Day d - (Day d + 3) mod 7"
    by (simp add: startOfISOWeek_eq Day_noon)
  have e: "endOfISOWeek d = MakeDate (Day d - (Day d + 3) mod 7 + 6) noon"
    by (simp add: endOfISOWeek_def addDays_eq s)
  have r: "0 \<le> (Day d + 3) mod 7" "(Day d + 3) mod 7 < 7"
    by simp_all
  have 1: "getDay (startOfISOWeek d) = 1"
    unfolding getDay_def WeekDay_def s by (rule monday)
  have 2: "Day (startOfISOWeek d) \<le> Day d" "Day d \<le> Day (endOfISOWeek d)"
    unfolding s e Day_noon using r by linarith+
  have 3: "Day (endOfISOWeek d) = Day (startOfISOWeek d) + 6"
    by (simp add: s e Day_noon)
  have 4: "endOfISOWeek d = startOfISOWeek d + 6 * msPerDay"
    by (simp add: e startOfISOWeek_eq MakeDate_def algebra_simps)
  have 5: "getDay d = 0 \<longrightarrow> Day (startOfISOWeek d) = Day d - 6"
    unfolding getDay_def WeekDay_def s weekday_next using r by auto
  have 6: "getDay d \<noteq> 0 \<longrightarrow> Day (startOfISOWeek d) = Day d + (1 - getDay d)"
    unfolding getDay_def WeekDay_def s weekday_next using r by auto
  from 1 2 3 4 5 6 show ?thesis
    by blast
qed

text \<open>Wednesday 17 January 2024, 14:00: the week runs from Monday 15 to Sunday 21.\<close>

theorem iso_week_bounds_witness:
  "getDay (startOfISOWeek 1705500000000) = 1
   \<and> Day 1705500000000 = 19739
   \<and> Day (startOfISOWeek 1705500000000) = 19737
   \<and> Day (endOfISOWeek 1705500000000) = 19743"
proof -
  have d: "Day 1705500000000 = 19739"
    by (simp add: Day_def msPerDay_def)
  have w: "getDay 1705500000000 = 3"
    by (simp add: getDay_def WeekDay_def d)
  note b = iso_week_bounds [of 1705500000000, unfolded d w]
  from b have m: "getDay (startOfISOWeek 1705500000000) = 1"
    by blast
  from b have s: "Day (startOfISOWeek 1705500000000) = 19737"
    by simp
  from b have e: "Day (endOfISOWeek 1705500000000) = Day (startOfISOWeek 1705500000000) + 6"
    by blast
  from d m s e show ?thesis
    by simp
qed

subsection \<open>Months\<close>

lemma div_mod_offset:
  fixes a x k :: int
  assumes "0 \<le> x" and "x < k"
  shows "(k * a + x) div k = a" and "(k * a + x) mod k = x"
proof -
  from assms have k: "k \<noteq> 0"
    by auto
  have "(x + k * a) div k = a + x div k"
    using k by (rule div_mult_self2)
  with assms show "(k * a + x) div k = a"
    by (simp add: add.commute)
  have "(x + k * a) mod k = x mod k"
    by (rule mod_mult_self2)
  with assms show "(k * a + x) mod k = x"
    by (simp add: add.commute)
qed

text \<open>The first day of a month: the calendar functions agree in the other direction.\<close>

lemma civil_from_days_first:
  assumes "1 \<le> m" and "m \<le> 12"
  shows "civil_from_days (days_from_civil y m 1) = (y, m, 1)"
proof -
  define y' where "y' = (if m \<le> 2 then y - 1 else y)"
  define era where "era = y' div 400"
  define yoe where "yoe = y' mod 400"
  define mp where "mp = (if m > 2 then m - 3 else m + 9)"
  define doy where "doy = (153 * mp + 2) div 5"
  define doe where "doe = yoe * 365 + yoe div 4 - yoe div 100 + doy"
  define c where "c = yoe div 100"
  define r where "r = yoe mod 100"
  define q where "q = r div 4"
  define t where "t = r mod 4"
  have dfc: "days_from_civil y m 1 = era * 146097 + doe - 719468"
    by (simp add: days_from_civil_def Let_def y'_def era_def yoe_def mp_def doy_def doe_def)
  have mp: "0 \<le> mp" "mp \<le> 11"
    using assms by (auto simp: mp_def)
  then have mp_cases: "mp = 0 \<or> mp = 1 \<or> mp = 2 \<or> mp = 3 \<or> mp = 4 \<or> mp = 5 \<or> mp = 6
      \<or> mp = 7 \<or> mp = 8 \<or> mp = 9 \<or> mp = 10 \<or> mp = 11"
    by presburger
  have doy: "0 \<le> doy" "doy \<le> 337"
    using mp unfolding doy_def by auto
  have inv: "(5 * doy + 2) div 153 = mp" "doy - (153 * mp + 2) div 5 + 1 = 1"
    using mp_cases unfolding doy_def by auto
  have yoe: "0 \<le> yoe" "yoe < 400" "yoe = 100 * c + r"
    by (simp_all add: yoe_def c_def r_def)
  have c: "0 \<le> c" "c \<le> 3"
    using yoe(1,2) unfolding c_def by auto
  have r: "0 \<le> r" "r < 100" "r = 4 * q + t"
    by (simp_all add: r_def q_def t_def)
  have q: "0 \<le> q" "q \<le> 24"
    using r(1,2) unfolding q_def by auto
  have t: "0 \<le> t" "t \<le> 3"
    using pos_mod_bound [of 4 r] by (simp_all add: t_def)
  have y4: "yoe div 4 = 25 * c + q"
    unfolding yoe(3) q_def by simp
  have doe_eq: "doe = 36524 * c + 1461 * q + 365 * t + doy"
    unfolding doe_def y4 c_def [symmetric] using yoe(3) r(3) by simp
  have doe: "0 \<le> doe" "doe < 146097"
    unfolding doe_eq using c q t doy by simp_all
  define z1 where "z1 = days_from_civil y m 1 + 719468"
  define era1 where "era1 = z1 div 146097"
  define doe1 where "doe1 = z1 mod 146097"
  define n100 where "n100 = min 3 (doe1 div 36524)"
  define d2 where "d2 = doe1 - n100 * 36524"
  define n4 where "n4 = d2 div 1461"
  define d3 where "d3 = d2 mod 1461"
  define n1 where "n1 = min 3 (d3 div 365)"
  define doy1 where "doy1 = d3 - n1 * 365"
  define yoe1 where "yoe1 = 100 * n100 + 4 * n4 + n1"
  define mp1 where "mp1 = (5 * doy1 + 2) div 153"
  define d1 where "d1 = doy1 - (153 * mp1 + 2) div 5 + 1"
  define m1 where "m1 = (if mp1 < 10 then mp1 + 3 else mp1 - 9)"
  define y1 where "y1 = yoe1 + era1 * 400"
  have cfd: "civil_from_days (days_from_civil y m 1) = (if m1 \<le> 2 then y1 + 1 else y1, m1, d1)"
    unfolding civil_from_days_def Let_def
      z1_def [symmetric] era1_def [symmetric] doe1_def [symmetric] n100_def [symmetric]
      d2_def [symmetric] n4_def [symmetric] d3_def [symmetric] n1_def [symmetric]
      doy1_def [symmetric] yoe1_def [symmetric] mp1_def [symmetric] d1_def [symmetric]
      m1_def [symmetric] y1_def [symmetric]
    by (rule refl)
  have z1: "z1 = 146097 * era + doe"
    by (simp add: z1_def dfc)
  have era1: "era1 = era" and doe1: "doe1 = doe"
    unfolding era1_def doe1_def z1 using div_mod_offset [OF doe, of era] by simp_all
  have rest1: "0 \<le> 1461 * q + 365 * t + doy" "1461 * q + 365 * t + doy < 36524"
    using q t doy by simp_all
  have "doe div 36524 = c"
    unfolding doe_eq using div_mod_offset(1) [OF rest1, of c] by (simp add: add.assoc)
  then have n100: "n100 = c"
    using c by (simp add: n100_def doe1)
  have d2: "d2 = 1461 * q + (365 * t + doy)"
    by (simp add: d2_def n100 doe1 doe_eq)
  have rest2: "0 \<le> 365 * t + doy" "365 * t + doy < 1461"
    using t doy by simp_all
  have n4: "n4 = q" and d3: "d3 = 365 * t + doy"
    unfolding n4_def d3_def d2 using div_mod_offset [OF rest2, of q] by simp_all
  have "d3 div 365 = t"
    unfolding d3 using div_mod_offset(1) [of doy 365 t] doy by simp
  then have n1: "n1 = t"
    using t by (simp add: n1_def)
  have doy1: "doy1 = doy"
    by (simp add: doy1_def d3 n1)
  have yoe1: "yoe1 = yoe"
    using yoe(3) r(3) by (simp add: yoe1_def n100 n4 n1)
  have mp1: "mp1 = mp"
    by (simp add: mp1_def doy1 inv(1))
  have d1: "d1 = 1"
    by (simp add: d1_def doy1 mp1 inv(2))
  have m1: "m1 = m"
    using assms by (auto simp: m1_def mp1 mp_def)
  have y1: "(if m \<le> 2 then y1 + 1 else y1) = y"
    by (simp add: y1_def yoe1 era1 yoe_def era_def y'_def)
  show ?thesis
    unfolding cfd m1 d1 y1 by (rule refl)
qed


lemma div_step:
  fixes r k :: int
  assumes "0 < k"
  shows "(r + 1) div k = (if (r + 1) mod k = 0 then r div k + 1 else r div k)"
proof -
  define q where "q = r div k"
  define s where "s = r mod k"
  have s: "0 \<le> s" "s < k" and r: "r = k * q + s"
    using assms by (simp_all add: q_def s_def)
  show ?thesis
  proof (cases "s = k - 1")
    case True
    then have "r + 1 = k * (q + 1) + 0"
      using r by (simp add: algebra_simps)
    then have "(r + 1) div k = q + 1" "(r + 1) mod k = 0"
      using div_mod_offset [of 0 k "q + 1"] assms by simp_all
    then show ?thesis
      by (simp add: q_def)
  next
    case False
    with s have s1: "0 \<le> s + 1" "s + 1 < k"
      by simp_all
    have "r + 1 = k * q + (s + 1)"
      using r by simp
    then have "(r + 1) div k = q" "(r + 1) mod k = s + 1"
      using div_mod_offset [OF s1, of q] by (simp_all add: add.assoc)
    then show ?thesis
      using s by (simp add: q_def)
  qed
qed

text \<open>A year of the cycle that starts in March has 365 or 366 days.\<close>

lemma year_step:
  fixes Y :: int
  defines "f \<equiv> \<lambda>Y :: int. Y div 400 * 146097 + Y mod 400 * 365 + Y mod 400 div 4 - Y mod 400 div 100"
  shows "365 \<le> f (Y + 1) - f Y \<and> f (Y + 1) - f Y \<le> 366"
proof -
  define e where "e = Y div 400"
  define r where "r = Y mod 400"
  have r: "0 \<le> r" "r < 400" and Y: "Y = 400 * e + r"
    by (simp_all add: e_def r_def)
  show ?thesis
  proof (cases "r = 399")
    case True
    have "Y + 1 = 400 * (e + 1) + 0"
      using Y True by simp
    then have "(Y + 1) div 400 = e + 1" "(Y + 1) mod 400 = 0"
      using div_mod_offset [of 0 400 "e + 1"] by simp_all
    then show ?thesis
      unfolding f_def using True by (simp add: e_def [symmetric] r_def [symmetric])
  next
    case False
    with r have r1: "0 \<le> r + 1" "r + 1 < 400"
      by simp_all
    have "Y + 1 = 400 * e + (r + 1)"
      using Y by simp
    then have n: "(Y + 1) div 400 = e" "(Y + 1) mod 400 = r + 1"
      using div_mod_offset [OF r1, of e] by (simp_all add: add.assoc)
    have "(r + 1) mod 100 = 0 \<Longrightarrow> (r + 1) mod 4 = 0"
      using mod_mod_cancel [of 4 100 "r + 1"] by simp
    then have "0 \<le> (r + 1) div 4 - r div 4 - ((r + 1) div 100 - r div 100)"
         "(r + 1) div 4 - r div 4 - ((r + 1) div 100 - r div 100) \<le> 1"
      by (simp_all add: div_step)
    then show ?thesis
      unfolding f_def n by (simp add: e_def [symmetric] r_def [symmetric])
  qed
qed

text \<open>From the first of a month to the first of the next there are 28 to 31 days.\<close>

lemma month_step:
  assumes "1 \<le> m" and "m \<le> 12"
  shows "28 \<le> days_from_civil (y + m div 12) (m mod 12 + 1) 1 - days_from_civil y m 1
       \<and> days_from_civil (y + m div 12) (m mod 12 + 1) 1 - days_from_civil y m 1 \<le> 31"
proof -
  from assms have cases: "m = 1 \<or> m = 2 \<or> m = 3 \<or> m = 4 \<or> m = 5 \<or> m = 6 \<or> m = 7
      \<or> m = 8 \<or> m = 9 \<or> m = 10 \<or> m = 11 \<or> m = 12"
    by presburger
  have feb: "28 \<le> days_from_civil y 3 1 - days_from_civil y 2 1
      \<and> days_from_civil y 3 1 - days_from_civil y 2 1 \<le> 31"
    using year_step [of "y - 1"] by (simp add: days_from_civil_def Let_def)
  show ?thesis
  proof (cases "m = 2")
    case True
    with feb show ?thesis
      by simp
  next
    case False
    with cases show ?thesis
      by (elim disjE) (simp_all add: days_from_civil_def Let_def)
  qed
qed


lemma TimeWithinDay_noon: "TimeWithinDay (MakeDate n noon) = noon"
  by (simp add: TimeWithinDay_def MakeDate_def noon_def msPerDay_def)

lemma fields_noon:
  "civil_from_days n = (y, m, D) \<Longrightarrow>
     YearFromTime (MakeDate n noon) = y \<and> MonthFromTime (MakeDate n noon) = m - 1
     \<and> DateFromTime (MakeDate n noon) = D"
  by (simp add: YearFromTime_def MonthFromTime_def DateFromTime_def Day_noon)

lemma toISODate_noon: "toISODate (MakeDate n noon) = civil_from_days n"
  by (cases "civil_from_days n")
     (simp add: toISODate_def getFullYear_def getMonth_def getDate_def YearFromTime_def
        MonthFromTime_def DateFromTime_def Day_noon)

text \<open>
  \<open>startOfMonth\<close> is noon of the first day of the month of its argument, and
  \<open>endOfMonth\<close> is noon of the day before the first day of the next month.
\<close>

lemma startOfMonth_eq:
  assumes "civil_from_days (Day t) = (y, m, D)"
  shows "startOfMonth t = MakeDate (days_from_civil y m 1) noon"
proof -
  from days_from_civil_inverse [of "Day t"] assms
  have inv: "days_from_civil y m D = Day t"
    by simp
  have "Day t - D + 1 = days_from_civil y m 1"
    using days_from_civil_shift [of y m D] inv by simp
  moreover have "setDate (MakeDate (Day t) noon) 1
      = MakeDate (Day (MakeDate (Day t) noon) - DateFromTime (MakeDate (Day t) noon) + 1) noon"
    by (simp only: setDate_def MakeDay_current TimeWithinDay_noon)
  ultimately show ?thesis
    using fields_noon [OF assms] by (simp add: startOfMonth_def startOfDay_eq Day_noon)
qed

lemma endOfMonth_eq:
  assumes "civil_from_days (Day t) = (y, m, D)"
  shows "endOfMonth t = MakeDate (days_from_civil (y + m div 12) (m mod 12 + 1) 1 - 1) noon"
proof -
  from days_from_civil_inverse [of "Day t"] assms have m: "1 \<le> m" "m \<le> 12"
    by simp_all
  let ?F = "days_from_civil y m 1"
  let ?N = "days_from_civil (y + m div 12) (m mod 12 + 1) 1"
  have x: "startOfMonth t = MakeDate ?F noon"
    by (rule startOfMonth_eq [OF assms])
  have fx: "YearFromTime (MakeDate ?F noon) = y" "MonthFromTime (MakeDate ?F noon) = m - 1"
    "DateFromTime (MakeDate ?F noon) = 1"
    using fields_noon [OF civil_from_days_first [OF m, of y]] by simp_all
  have x1: "setMonth (MakeDate ?F noon) (getMonth (MakeDate ?F noon) + 1) = MakeDate ?N noon"
    by (simp add: setMonth_def getMonth_def fx TimeWithinDay_noon MakeDay_def)
  have m': "1 \<le> m mod 12 + 1" "m mod 12 + 1 \<le> 12"
    using pos_mod_sign [of 12 m] pos_mod_bound [of 12 m] by simp_all
  have "DateFromTime (MakeDate ?N noon) = 1"
    using fields_noon [OF civil_from_days_first [OF m', of "y + m div 12"]] by simp
  then have x2: "setDate (MakeDate ?N noon) 0 = MakeDate (?N - 1) noon"
    by (simp add: setDate_def MakeDay_current TimeWithinDay_noon Day_noon)
  show ?thesis
    unfolding endOfMonth_def Let_def x x1 x2 by (simp add: setHours12_def Day_noon)
qed

lemma month_span:
  "27 \<le> Day (endOfMonth t) - Day (startOfMonth t)
   \<and> Day (endOfMonth t) - Day (startOfMonth t) \<le> 30"
proof -
  obtain y m D where c: "civil_from_days (Day t) = (y, m, D)"
    by (cases "civil_from_days (Day t)") auto
  from days_from_civil_inverse [of "Day t"] c have m: "1 \<le> m" "m \<le> 12"
    by simp_all
  from month_step [OF m, of y] show ?thesis
    by (simp add: startOfMonth_eq [OF c] endOfMonth_eq [OF c] Day_noon)
qed

lemma month_first_last:
  assumes "toISODate t = (y, m, D)"
  shows "toISODate (startOfMonth t) = (y, m, 1)
       \<and> toISODate (addDays (endOfMonth t) 1) = (y + m div 12, m mod 12 + 1, 1)"
proof -
  from assms have c: "civil_from_days (Day t) = (y, m, D)"
    by (cases "civil_from_days (Day t)")
       (simp add: toISODate_def getFullYear_def getMonth_def getDate_def YearFromTime_def
          MonthFromTime_def DateFromTime_def)
  from days_from_civil_inverse [of "Day t"] c have m: "1 \<le> m" "m \<le> 12"
    by simp_all
  have m': "1 \<le> m mod 12 + 1" "m mod 12 + 1 \<le> 12"
    using pos_mod_sign [of 12 m] pos_mod_bound [of 12 m] by simp_all
  show ?thesis
    by (simp add: startOfMonth_eq [OF c] endOfMonth_eq [OF c] addDays_eq Day_noon toISODate_noon
        civil_from_days_first [OF m] civil_from_days_first [OF m'])
qed

section \<open>Properties of the completion\<close>

lemma MakeDate_noon_le: "MakeDate a noon \<le> MakeDate b noon \<longleftrightarrow> a \<le> b"
  by (simp add: MakeDate_def msPerDay_def)

lemma addDays_noon: "addDays (MakeDate a noon) n = MakeDate (a + n) noon"
  by (simp add: addDays_eq Day_noon)

lemma pushDays_noon:
  "pushDays f (MakeDate a noon) (MakeDate b noon) out
     = Some (out @ map (\<lambda>k. f (MakeDate (a + int k) noon)) [0 ..< nat (b - a + 1)])"
proof (induction "nat (b - a + 1)" arbitrary: a out)
  case 0
  then have "\<not> a \<le> b"
    by simp
  then show ?case
    using 0 by (subst pushDays.simps) (simp add: MakeDate_noon_le)
next
  case (Suc n)
  then have le: "a \<le> b" and n: "n = nat (b - (a + 1) + 1)"
    by linarith+
  have step: "pushDays f (MakeDate a noon) (MakeDate b noon) out
      = pushDays f (MakeDate (a + 1) noon) (MakeDate b noon) (out @ [f (MakeDate a noon)])"
    using le by (subst pushDays.simps) (simp add: MakeDate_noon_le addDays_noon)
  have "[0 ..< nat (b - a + 1)] = 0 # map Suc [0 ..< n]"
    using Suc.hyps(2) [symmetric] by (simp add: upt_conv_Cons map_Suc_upt del: upt_Suc)
  then have "map (\<lambda>k. f (MakeDate (a + int k) noon)) [0 ..< nat (b - a + 1)]
      = f (MakeDate a noon) # map (\<lambda>k. f (MakeDate (a + 1 + int k) noon)) [0 ..< n]"
    by (simp add: comp_def add.assoc)
  with Suc.hyps(1) [OF n, of "out @ [f (MakeDate a noon)]"] step n show ?case
    by simp
qed

lemma countHabit_fold:
  "foldl (countHabit s i) (dn, tot) hs
     = (dn + length (filter (checked s i) hs), tot + length hs)"
  by (induction hs arbitrary: dn tot) (simp_all add: countHabit_def)

lemma countDay_fold:
  "foldl (\<lambda>acc i. foldl (countHabit s i) acc hs) (dn, tot) days
     = (dn + length (filter (\<lambda>(i, h). checked s i h) (List.product days hs)),
        tot + length days * length hs)"
  by (induction days arbitrary: dn tot) (simp_all add: countHabit_fold filter_map comp_def)

lemma parseISODate_noon: "parseISODate i = MakeDate (Day (parseISODate i)) noon"
  by (cases i) (simp add: parseISODate_def newDate12_def Day_noon)

text \<open>
  The run of \<open>completionForRange\<close>: the loop over the days ends, and the counters
  are those of the closed form.
\<close>

lemma completionForRange_days:
  "pushDays toISODate (startOfDay (parseISODate startIso)) (parseISODate endIsoInclusive) []
     = Some (loopDates startIso endIsoInclusive)"
  unfolding startOfDay_eq
  by (subst (2) parseISODate_noon) (simp add: pushDays_noon loopDates_def)

lemma completionForRange_run:
  "completionForRange s startIso endIsoInclusive =
     Some \<lparr> done_n = loopDone s (loopDates startIso endIsoInclusive),
            total_n = length (loopDates startIso endIsoInclusive) * length (activeHabits s),
            pct = (if length (loopDates startIso endIsoInclusive) * length (activeHabits s) = 0
                   then 0
                   else Math_round
                     (fl (fl (of_nat (loopDone s (loopDates startIso endIsoInclusive))
                              / of_nat (length (loopDates startIso endIsoInclusive)
                                        * length (activeHabits s)))
                          * 100))) \<rparr>"
proof -
  have none: "activeHabits s = [] \<Longrightarrow> loopDone s ds = 0" for ds
    by (simp add: loopDone_def)
  show ?thesis
    using none
    by (simp add: completionForRange_def Let_def completionForRange_days countDay_fold
        loopDone_def)
qed

subsection \<open>The calendar of the specification\<close>

text \<open>
  The date arithmetic of the program and the calendar of the specification agree: a day
  number stands for a calendar date, the date after a calendar date has the next day
  number, and the order of calendar dates is the order of their day numbers.
\<close>

lemma civil_from_days_calendar: "calendar_date (civil_from_days z)"
proof -
  define z' where "z' = z + 719468"
  define era where "era = z' div 146097"
  define doe where "doe = z' mod 146097"
  define n100 where "n100 = min 3 (doe div 36524)"
  define d2 where "d2 = doe - n100 * 36524"
  define n4 where "n4 = d2 div 1461"
  define d3 where "d3 = d2 mod 1461"
  define n1 where "n1 = min 3 (d3 div 365)"
  define doy where "doy = d3 - n1 * 365"
  define yoe where "yoe = 100 * n100 + 4 * n4 + n1"
  define mp where "mp = (5 * doy + 2) div 153"
  define d where "d = doy - (153 * mp + 2) div 5 + 1"
  define m where "m = (if mp < 10 then mp + 3 else mp - 9)"
  define y where "y = yoe + era * 400"
  have cfd: "civil_from_days z = (if m \<le> 2 then y + 1 else y, m, d)"
    unfolding civil_from_days_def Let_def
      z'_def [symmetric] era_def [symmetric] doe_def [symmetric] n100_def [symmetric]
      d2_def [symmetric] n4_def [symmetric] d3_def [symmetric] n1_def [symmetric]
      doy_def [symmetric] yoe_def [symmetric] mp_def [symmetric] d_def [symmetric]
      m_def [symmetric] y_def [symmetric]
    by (rule refl)
  have doe: "0 \<le> doe" "doe < 146097"
    by (simp_all add: doe_def)
  have n100: "0 \<le> n100" "n100 \<le> 3"
    using doe by (simp_all add: n100_def)
  have d2: "0 \<le> d2" "d2 \<le> 36524"
    using doe unfolding d2_def n100_def by (auto simp: min_def)
  have n4: "0 \<le> n4" "n4 \<le> 24"
    using d2 unfolding n4_def by auto
  have d3: "0 \<le> d3" "d3 < 1461" "d2 = 1461 * n4 + d3"
    by (simp_all add: d3_def n4_def)
  have n1: "0 \<le> n1" "n1 \<le> 3"
    using d3 by (simp_all add: n1_def)
  have doy: "0 \<le> doy" "doy \<le> 365"
    using d3 unfolding doy_def n1_def by (auto simp: min_def)
  have mp: "0 \<le> mp" "mp \<le> 11"
    using doy unfolding mp_def by auto
  then have mp_cases: "mp = 0 \<or> mp = 1 \<or> mp = 2 \<or> mp = 3 \<or> mp = 4 \<or> mp = 5 \<or> mp = 6
      \<or> mp = 7 \<or> mp = 8 \<or> mp = 9 \<or> mp = 10 \<or> mp = 11"
    by presburger
  have lo: "153 * mp \<le> 5 * doy + 2" and hi: "5 * doy + 2 < 153 * mp + 153"
    unfolding mp_def by presburger+
  have m: "1 \<le> m" "m \<le> 12"
    using mp unfolding m_def by auto
  have d: "1 \<le> d" "d \<le> (if mp = 11 then 29 else if mp = 1 \<or> mp = 3 \<or> mp = 6 \<or> mp = 8 then 30 else 31)"
    using mp_cases lo hi doy unfolding d_def by auto
  have feb: "leap_year (y + 1)" if "mp = 11" and "d = 29"
  proof -
    from that have "doy = 365"
      by (simp add: d_def)
    have "n1 = 3"
    proof (rule ccontr)
      assume "n1 \<noteq> 3"
      then have "n1 = d3 div 365"
        by (simp add: n1_def min_def split: if_splits)
      then have "doy = d3 mod 365"
        by (simp add: doy_def minus_div_mult_eq_mod)
      then have "doy < 365"
        by simp
      with \<open>doy = 365\<close> show False
        by simp
    qed
    with \<open>doy = 365\<close> have t: "n1 = 3" "d3 = 1460"
      by (simp_all add: doy_def)
    have c: "n4 \<noteq> 24 \<or> n100 = 3"
    proof (rule ccontr)
      assume "\<not> (n4 \<noteq> 24 \<or> n100 = 3)"
      then have a: "n4 = 24" "n100 \<noteq> 3"
        by simp_all
      then have "n100 = doe div 36524"
        by (simp add: n100_def min_def split: if_splits)
      then have "d2 = doe mod 36524"
        by (simp add: d2_def minus_div_mult_eq_mod)
      then have "d2 < 36524"
        by simp
      with d3(3) a(1) t(2) show False
        by simp
    qed
    define Y where "Y = y + 1"
    have four: "Y mod 4 = 0"
    proof -
      have "Y = 4 * (100 * era + 25 * n100 + n4 + 1) + 0"
        by (simp add: Y_def y_def yoe_def t)
      then show ?thesis
        using div_mod_offset(2) [of 0 4 "100 * era + 25 * n100 + n4 + 1"] by simp
    qed
    have hundred: "Y mod 100 = 4 * (n4 + 1)" if "n4 \<noteq> 24"
    proof -
      have e: "Y = 100 * (4 * era + n100) + 4 * (n4 + 1)"
        by (simp add: Y_def y_def yoe_def t)
      have r: "0 \<le> 4 * (n4 + 1)" "4 * (n4 + 1) < 100"
        using n4 that by simp_all
      show ?thesis
        unfolding e by (rule div_mod_offset(2) [OF r])
    qed
    have "leap_year Y"
    proof (cases "n4 = 24")
      case True
      with c have "n100 = 3"
        by simp
      with True have "Y = 400 * (era + 1) + 0"
        by (simp add: Y_def y_def yoe_def t)
      then have "Y mod 400 = 0"
        using div_mod_offset(2) [of 0 400 "era + 1"] by simp
      with four show ?thesis
        by (simp add: leap_year_def)
    next
      case False
      from hundred [OF False] n4 have "Y mod 100 \<noteq> 0"
        by simp
      with four show ?thesis
        by (simp add: leap_year_def)
    qed
    then show ?thesis
      by (simp add: Y_def)
  qed
  have "d \<le> days_in_month (if m \<le> 2 then y + 1 else y) m"
  proof (cases "mp = 11")
    case True
    then have m2: "m = 2"
      by (simp add: m_def)
    show ?thesis
    proof (cases "d = 29")
      case True
      with feb [OF \<open>mp = 11\<close>] m2 show ?thesis
        by (simp add: days_in_month_def)
    next
      case False
      with d(2) \<open>mp = 11\<close> have "d \<le> 28"
        by simp
      with m2 show ?thesis
        by (simp add: days_in_month_def)
    qed
  next
    case False
    with mp_cases d(2) show ?thesis
      unfolding m_def days_in_month_def by (elim disjE) simp_all
  qed
  with m d(1) show ?thesis
    by (simp add: cfd calendar_date_def)
qed


lemma year_length:
  fixes Y :: int
  defines "f \<equiv> \<lambda>Y :: int. Y div 400 * 146097 + Y mod 400 * 365 + Y mod 400 div 4 - Y mod 400 div 100"
  shows "f (Y + 1) - f Y = (if leap_year (Y + 1) then 366 else 365)"
proof -
  define e where "e = Y div 400"
  define r where "r = Y mod 400"
  have r: "0 \<le> r" "r < 400" and Y: "Y = 400 * e + r"
    by (simp_all add: e_def r_def)
  show ?thesis
  proof (cases "r = 399")
    case True
    have "Y + 1 = 400 * (e + 1) + 0"
      using Y True by simp
    then have n: "(Y + 1) div 400 = e + 1" "(Y + 1) mod 400 = 0"
      using div_mod_offset [of 0 400 "e + 1"] by simp_all
    have "(Y + 1) mod 400 mod 4 = (Y + 1) mod 4"
      by (rule mod_mod_cancel) simp
    with n have "leap_year (Y + 1)"
      by (simp add: leap_year_def)
    then show ?thesis
      unfolding f_def n using True by (simp add: e_def [symmetric] r_def [symmetric])
  next
    case False
    with r have r1: "0 \<le> r + 1" "r + 1 < 400"
      by simp_all
    have "Y + 1 = 400 * e + (r + 1)"
      using Y by simp
    then have n: "(Y + 1) div 400 = e" "(Y + 1) mod 400 = r + 1"
      using div_mod_offset [OF r1, of e] by (simp_all add: add.assoc)
    have "(Y + 1) mod 400 mod 4 = (Y + 1) mod 4" "(Y + 1) mod 400 mod 100 = (Y + 1) mod 100"
      by (rule mod_mod_cancel, simp)+
    then have m: "(Y + 1) mod 4 = (r + 1) mod 4" "(Y + 1) mod 100 = (r + 1) mod 100"
      by (simp_all add: n)
    have c: "(r + 1) mod 100 = 0 \<Longrightarrow> (r + 1) mod 4 = 0"
      using mod_mod_cancel [of 4 100 "r + 1"] by simp
    have l: "leap_year (Y + 1) \<longleftrightarrow> (r + 1) mod 4 = 0 \<and> (r + 1) mod 100 \<noteq> 0"
      using r by (auto simp: leap_year_def m n)
    have g: "(r + 1) div 4 - r div 4 - ((r + 1) div 100 - r div 100)
        = (if (r + 1) mod 4 = 0 \<and> (r + 1) mod 100 \<noteq> 0 then 1 else 0)"
      using c by (auto simp: div_step)
    have step: "f (Y + 1) - f Y
        = 365 + ((r + 1) div 4 - r div 4 - ((r + 1) div 100 - r div 100))"
      unfolding f_def n by (simp add: e_def [symmetric] r_def [symmetric])
    show ?thesis
      unfolding step g l by simp
  qed
qed

lemma month_length:
  assumes "1 \<le> m" and "m \<le> 12"
  shows "days_from_civil (y + m div 12) (m mod 12 + 1) 1 = days_from_civil y m 1 + days_in_month y m"
proof -
  from assms have cases: "m = 1 \<or> m = 2 \<or> m = 3 \<or> m = 4 \<or> m = 5 \<or> m = 6 \<or> m = 7
      \<or> m = 8 \<or> m = 9 \<or> m = 10 \<or> m = 11 \<or> m = 12"
    by presburger
  have feb: "days_from_civil y 3 1 = days_from_civil y 2 1 + days_in_month y 2"
    using year_length [of "y - 1"]
    by (cases "leap_year y") (simp_all add: days_from_civil_def Let_def days_in_month_def)
  show ?thesis
  proof (cases "m = 2")
    case True
    with feb show ?thesis
      by simp
  next
    case False
    with cases show ?thesis
      by (elim disjE) (simp_all add: days_from_civil_def Let_def days_in_month_def)
  qed
qed


lemma days_in_month_bounds: "28 \<le> days_in_month y m" "days_in_month y m \<le> 31"
  by (simp_all add: days_in_month_def)

lemma next_date_step:
  assumes "calendar_date a"
  shows "calendar_date (next_date a)" and "dayNumber (next_date a) = dayNumber a + 1"
proof -
  obtain y m d where a: "a = (y, m, d)"
    by (cases a) auto
  from assms have v: "1 \<le> m" "m \<le> 12" "1 \<le> d" "d \<le> days_in_month y m"
    by (simp_all add: a calendar_date_def)
  have sh: "days_from_civil y m d = days_from_civil y m 1 + d - 1"
    by (rule days_from_civil_shift)
  show "calendar_date (next_date a)"
    using v days_in_month_bounds(1) [of y "m + 1"] days_in_month_bounds(1) [of "y + 1" 1]
    by (simp add: a next_date_def calendar_date_def)
  show "dayNumber (next_date a) = dayNumber a + 1"
  proof (cases "d < days_in_month y m")
    case True
    then show ?thesis
      using days_from_civil_shift [of y m "d + 1"] sh
      by (simp add: a next_date_def dayNumber_def)
  next
    case False
    with v have d: "d = days_in_month y m"
      by simp
    show ?thesis
    proof (cases "m < 12")
      case True
      with v have "m div 12 = 0" "m mod 12 + 1 = m + 1"
        by simp_all
      with month_length [OF v(1,2), of y] have "days_from_civil y (m + 1) 1 = days_from_civil y m 1 + d"
        by (simp add: d)
      with True sh show ?thesis
        by (simp add: a next_date_def dayNumber_def d)
    next
      case False
      with v have m: "m = 12"
        by simp
      from month_length [OF v(1,2), of y] have "days_from_civil (y + 1) 1 1 = days_from_civil y m 1 + d"
        by (simp add: d m)
      with sh show ?thesis
        by (simp add: a next_date_def dayNumber_def d m)
    qed
  qed
qed

lemma monthStart_index:
  assumes "1 \<le> m" and "m \<le> 12"
  shows "monthStart (12 * y + (m - 1)) = days_from_civil y m 1"
proof -
  from assms have r: "0 \<le> m - 1" "m - 1 < 12"
    by simp_all
  show ?thesis
    unfolding monthStart_def div_mod_offset [OF r] by simp
qed

lemma monthStart_next:
  "monthStart (k + 1) = monthStart k + days_in_month (k div 12) (k mod 12 + 1)"
proof -
  define q where "q = k div 12"
  define r where "r = k mod 12"
  have r: "0 \<le> r" "r < 12" and k: "k = 12 * q + r"
    by (simp_all add: q_def r_def)
  have m: "1 \<le> r + 1" "r + 1 \<le> 12"
    using r by simp_all
  have n: "(k + 1) div 12 = q + (r + 1) div 12 \<and> (k + 1) mod 12 = (r + 1) mod 12"
  proof (cases "r = 11")
    case True
    then have "k + 1 = 12 * (q + 1) + 0"
      using k by simp
    then have "(k + 1) div 12 = q + 1" "(k + 1) mod 12 = 0"
      using div_mod_offset [of 0 12 "q + 1"] by simp_all
    with True show ?thesis
      by simp
  next
    case False
    with r have r1: "0 \<le> r + 1" "r + 1 < 12"
      by simp_all
    have "k + 1 = 12 * q + (r + 1)"
      using k by simp
    then have "(k + 1) div 12 = q" "(k + 1) mod 12 = r + 1"
      using div_mod_offset [OF r1, of q] by (simp_all add: add.assoc)
    with r1 show ?thesis
      by simp
  qed
  from month_length [OF m, of q] n show ?thesis
    by (simp add: monthStart_def q_def [symmetric] r_def [symmetric])
qed

lemma monthStart_mono: "monthStart k \<le> monthStart (k + int n)"
proof (induction n)
  case 0
  show ?case
    by simp
next
  case (Suc n)
  have "monthStart (k + int n) \<le> monthStart (k + int n + 1)"
    using monthStart_next [of "k + int n"]
      days_in_month_bounds(1) [of "(k + int n) div 12" "(k + int n) mod 12 + 1"]
    by simp
  also have "k + int n + 1 = k + int (Suc n)"
    by simp
  finally show ?case
    using Suc by simp
qed

lemma dayNumber_strict:
  assumes "calendar_date a" and "calendar_date b" and "not_after a b" and "a \<noteq> b"
  shows "dayNumber a < dayNumber b"
proof -
  obtain y m d where a: "a = (y, m, d)"
    by (cases a) auto
  obtain y' m' d' where b: "b = (y', m', d')"
    by (cases b) auto
  from assms(1) have va: "1 \<le> m" "m \<le> 12" "1 \<le> d" "d \<le> days_in_month y m"
    by (simp_all add: a calendar_date_def)
  from assms(2) have vb: "1 \<le> m'" "m' \<le> 12" "1 \<le> d'" "d' \<le> days_in_month y' m'"
    by (simp_all add: b calendar_date_def)
  have da: "dayNumber a = monthStart (12 * y + (m - 1)) + d - 1"
    using days_from_civil_shift [of y m d] by (simp add: a dayNumber_def monthStart_index [OF va(1,2)])
  have db: "dayNumber b = monthStart (12 * y' + (m' - 1)) + d' - 1"
    using days_from_civil_shift [of y' m' d']
    by (simp add: b dayNumber_def monthStart_index [OF vb(1,2)])
  show ?thesis
  proof (cases "y = y' \<and> m = m'")
    case True
    with assms(3,4) have "d < d'"
      by (auto simp: a b not_after_def)
    with True show ?thesis
      by (simp add: da db)
  next
    case False
    with assms(3) have "y < y' \<or> (y = y' \<and> m < m')"
      by (auto simp: a b not_after_def)
    with va vb have lt: "12 * y + (m - 1) < 12 * y' + (m' - 1)"
      by auto
    define n where "n = nat (12 * y' + (m' - 1) - (12 * y + (m - 1) + 1))"
    have k': "12 * y' + (m' - 1) = 12 * y + (m - 1) + 1 + int n"
      using lt by (simp add: n_def)
    have r: "0 \<le> m - 1" "m - 1 < 12"
      using va by simp_all
    have "dayNumber a < monthStart (12 * y + (m - 1) + 1)"
      unfolding da monthStart_next div_mod_offset [OF r] using va(4) by simp
    also have "\<dots> \<le> monthStart (12 * y' + (m' - 1))"
      unfolding k' by (rule monthStart_mono)
    also have "\<dots> \<le> dayNumber b"
      using vb(3) by (simp add: db)
    finally show ?thesis .
  qed
qed

lemma not_after_total: "not_after a b \<or> not_after b a"
  by (cases a, cases b) (auto simp: not_after_def)

lemma civil_from_days_dayNumber:
  assumes "calendar_date a"
  shows "civil_from_days (dayNumber a) = a"
proof (rule ccontr)
  let ?b = "civil_from_days (dayNumber a)"
  assume ne: "?b \<noteq> a"
  have vb: "calendar_date ?b"
    by (rule civil_from_days_calendar)
  have eq: "dayNumber ?b = dayNumber a"
    using days_from_civil_inverse [of "dayNumber a"]
    by (cases ?b) (simp add: dayNumber_def)
  from not_after_total [of a ?b] show False
  proof
    assume "not_after a ?b"
    from dayNumber_strict [OF assms vb this] ne eq show False
      by simp
  next
    assume "not_after ?b a"
    from dayNumber_strict [OF vb assms this ne] eq show False
      by simp
  qed
qed

lemma not_after_dayNumber:
  assumes "calendar_date a" and "calendar_date b"
  shows "not_after a b \<longleftrightarrow> dayNumber a \<le> dayNumber b"
proof
  assume "not_after a b"
  then show "dayNumber a \<le> dayNumber b"
    using dayNumber_strict [OF assms] by (cases "a = b") auto
next
  assume le: "dayNumber a \<le> dayNumber b"
  show "not_after a b"
  proof (rule ccontr)
    assume n: "\<not> not_after a b"
    with not_after_total [of a b] have "not_after b a"
      by simp
    moreover from n have "b \<noteq> a"
      by (cases a) (auto simp: not_after_def)
    ultimately have "dayNumber b < dayNumber a"
      using dayNumber_strict [OF assms(2,1)] by simp
    with le show False
      by simp
  qed
qed

lemma spec_dates_days:
  assumes "calendar_date a" and "calendar_date b"
  shows "spec_dates a b
    = map (\<lambda>k. civil_from_days (dayNumber a + int k)) [0 ..< nat (dayNumber b - dayNumber a + 1)]"
  using assms(1)
proof (induction "nat (dayNumber b - dayNumber a + 1)" arbitrary: a)
  case 0
  then have "\<not> dayNumber a \<le> dayNumber b"
    by simp
  then have "\<not> not_after a b"
    using not_after_dayNumber [OF "0.prems" assms(2)] by simp
  then show ?case
    using 0 by (subst spec_dates.simps) simp
next
  case (Suc n)
  then have le: "dayNumber a \<le> dayNumber b"
    by linarith
  note nx = next_date_step [OF Suc.prems]
  have n: "n = nat (dayNumber b - dayNumber (next_date a) + 1)"
    using Suc.hyps(2) by (simp add: nx(2))
  have step: "spec_dates a b = a # spec_dates (next_date a) b"
    using le not_after_dayNumber [OF Suc.prems assms(2)] Suc.prems assms(2)
    by (subst spec_dates.simps) simp
  have "[0 ..< nat (dayNumber b - dayNumber a + 1)] = 0 # map Suc [0 ..< n]"
    using Suc.hyps(2) [symmetric] by (simp add: upt_conv_Cons map_Suc_upt del: upt_Suc)
  then have "map (\<lambda>k. civil_from_days (dayNumber a + int k)) [0 ..< nat (dayNumber b - dayNumber a + 1)]
      = civil_from_days (dayNumber a)
        # map (\<lambda>k. civil_from_days (dayNumber a + 1 + int k)) [0 ..< n]"
    by (simp add: comp_def add.assoc)
  with Suc.hyps(1) [OF n nx(1)] step n show ?case
    by (simp add: nx(2) civil_from_days_dayNumber [OF Suc.prems])
qed

text \<open>
  The dates of the range are the calendar dates from the first to the last, each once.
\<close>

lemma spec_dates_set:
  assumes "calendar_date a" and "calendar_date b"
  shows "set (spec_dates a b) = {i. calendar_date i \<and> not_after a i \<and> not_after i b}"
    and "distinct (spec_dates a b)"
proof -
  let ?n = "nat (dayNumber b - dayNumber a + 1)"
  have inj: "dayNumber (civil_from_days z) = z" for z
    using days_from_civil_inverse [of z] by (cases "civil_from_days z") (simp add: dayNumber_def)
  show "set (spec_dates a b) = {i. calendar_date i \<and> not_after a i \<and> not_after i b}"
  proof (intro set_eqI iffI)
    fix i
    assume "i \<in> set (spec_dates a b)"
    then obtain k where k: "k < ?n" and i: "i = civil_from_days (dayNumber a + int k)"
      unfolding spec_dates_days [OF assms] by auto
    have v: "calendar_date i"
      unfolding i by (rule civil_from_days_calendar)
    have "dayNumber a \<le> dayNumber i" "dayNumber i \<le> dayNumber b"
      using k by (simp_all add: i inj)
    with v show "i \<in> {i. calendar_date i \<and> not_after a i \<and> not_after i b}"
      using not_after_dayNumber [OF assms(1) v] not_after_dayNumber [OF v assms(2)] by simp
  next
    fix i
    assume "i \<in> {i. calendar_date i \<and> not_after a i \<and> not_after i b}"
    then have v: "calendar_date i" and na: "not_after a i" "not_after i b"
      by simp_all
    have le: "dayNumber a \<le> dayNumber i" "dayNumber i \<le> dayNumber b"
      using na not_after_dayNumber [OF assms(1) v] not_after_dayNumber [OF v assms(2)]
      by simp_all
    define k where "k = nat (dayNumber i - dayNumber a)"
    have "k < ?n" "civil_from_days (dayNumber a + int k) = i"
      using le by (simp_all add: k_def civil_from_days_dayNumber [OF v])
    then show "i \<in> set (spec_dates a b)"
      unfolding spec_dates_days [OF assms] by force
  qed
  have "inj_on (\<lambda>k. civil_from_days (dayNumber a + int k)) (set [0 ..< ?n])"
  proof (rule inj_onI)
    fix j k
    assume "civil_from_days (dayNumber a + int j) = civil_from_days (dayNumber a + int k)"
    then have "dayNumber (civil_from_days (dayNumber a + int j))
        = dayNumber (civil_from_days (dayNumber a + int k))"
      by simp
    then show "j = k"
      by (simp add: inj)
  qed
  then show "distinct (spec_dates a b)"
    unfolding spec_dates_days [OF assms] by (simp add: distinct_map)
qed

text \<open>
  The text of the key of a calendar date of a year from 1000 to 9999 has the form
  \<^verbatim>\<open>YYYY-MM-DD\<close>: ten characters, with the two separators in place.
\<close>

lemma String_nat_digit: "n < 10 \<Longrightarrow> length (String_nat n) = 1"
  by (subst String_nat.simps) simp

lemma String_nat_two: "10 \<le> n \<Longrightarrow> n < 100 \<Longrightarrow> length (String_nat n) = 2"
  by (subst String_nat.simps) (simp add: String_nat_digit)

lemma String_nat_four: "1000 \<le> n \<Longrightarrow> n \<le> 9999 \<Longrightarrow> length (String_nat n) = 4"
proof -
  assume n: "1000 \<le> n" "n \<le> 9999"
  then have a: "10 \<le> n div 100" "n div 100 < 100"
    by simp_all
  have "length (String_nat (n div 10)) = 3"
    using n a by (subst String_nat.simps) (simp add: String_nat_two div_mult2_eq [symmetric])
  with n show ?thesis
    by (subst String_nat.simps) simp
qed

lemma pad2_length: "1 \<le> n \<Longrightarrow> n \<le> 99 \<Longrightarrow> length (pad2 n) = 2"
  using String_nat_digit [of "nat n"] String_nat_two [of "nat n"]
  by (cases "n < 10") (simp_all add: pad2_def padStart_def String_int_def)

lemma isoText_form:
  assumes "iso_date i"
  shows "length (isoText i) = 10 \<and> isoText i ! 4 = CHR ''-'' \<and> isoText i ! 7 = CHR ''-''"
proof -
  obtain y m d where i: "i = (y, m, d)"
    by (cases i) auto
  from assms have v: "1000 \<le> y" "y \<le> 9999" "1 \<le> m" "m \<le> 12" "1 \<le> d" "d \<le> days_in_month y m"
    by (simp_all add: i iso_date_def calendar_date_def)
  have d: "d \<le> 99"
    using v(6) days_in_month_bounds(2) [of y m] by simp
  have ly: "length (String_int y) = 4"
    using v String_nat_four [of "nat y"] by (simp add: String_int_def)
  have lm: "length (pad2 m) = 2" and ld: "length (pad2 d) = 2"
    using v d by (simp_all add: pad2_length)
  show ?thesis
    by (simp add: i isoText_def ly lm ld nth_append)
qed

text \<open>
  For a year outside 0..99 \<open>parseISODate\<close> is noon of the day the date names, so the
  loop pushes the dates of the range.
\<close>

lemma Day_parseISODate:
  assumes "calendar_date i" and "\<not> (0 \<le> fst i \<and> fst i \<le> 99)"
  shows "Day (parseISODate i) = dayNumber i"
proof -
  obtain y m d where i: "i = (y, m, d)"
    by (cases i) auto
  from assms(1) have m: "1 \<le> m" "m \<le> 12"
    by (simp_all add: i calendar_date_def)
  then have "(m - 1) div 12 = 0" "(m - 1) mod 12 + 1 = m"
    by auto
  then have "MakeDay y (m - 1) d = days_from_civil y m d"
    using days_from_civil_shift [of y m d] by (simp add: MakeDay_def)
  moreover from assms(2) have "(if 0 \<le> y \<and> y \<le> 99 then 1900 + y else y) = y"
    by (auto simp: i)
  ultimately show ?thesis
    by (simp add: i parseISODate_def newDate12_def Day_noon dayNumber_def)
qed

lemma loopDates_spec:
  assumes "iso_date a" and "iso_date b"
  shows "loopDates a b = spec_dates a b"
proof -
  from assms have v: "calendar_date a" "calendar_date b"
    and y: "\<not> (0 \<le> fst a \<and> fst a \<le> 99)" "\<not> (0 \<le> fst b \<and> fst b \<le> 99)"
    by (simp_all add: iso_date_def)
  show ?thesis
    by (simp add: loopDates_def spec_dates_days [OF v] Day_parseISODate [OF v(1) y(1)]
        Day_parseISODate [OF v(2) y(2)] toISODate_noon)
qed

lemma checked_entry:
  "checked s i h \<longleftrightarrow>
     check_entry s i h = Some True
     \<or> check_entry s i h = None \<and> id_habit h \<in> set Object_prototype_names"
  by (auto simp: checked_def check_entry_def truthyAt_def Let_def split: option.splits)

lemma loopDone_spec: "loopDone s ds = spec_done s ds"
  by (simp add: loopDone_def spec_done_def checked_entry)

lemma spec_done_claimed:
  assumes "\<forall>h \<in> set (activeHabits s). id_habit h \<notin> set Object_prototype_names"
  shows "spec_done s ds = claimed_done s ds"
proof -
  have "filter (\<lambda>(i, h). check_entry s i h = Some True
            \<or> check_entry s i h = None \<and> id_habit h \<in> set Object_prototype_names)
          (List.product ds (activeHabits s))
      = filter (\<lambda>(i, h). check_entry s i h = Some True) (List.product ds (activeHabits s))"
    using assms by (intro filter_cong refl) auto
  then show ?thesis
    by (simp add: spec_done_def claimed_done_def)
qed

subsection \<open>The binary64 rounding\<close>

text \<open>
  The rounding model is the intended one: \<open>bits\<close> counts binary digits, and
  \<open>float_exponent q\<close> is the binary exponent of \<open>q\<close>.
\<close>

lemma bits_bounds: "0 < n \<Longrightarrow> 2 ^ (bits n - 1) \<le> n \<and> n < 2 ^ bits n"
proof (induction n rule: bits.induct)
  case (1 n)
  show ?case
  proof (cases "n div 2 = 0")
    case True
    with 1(2) have "n = 1"
      by (simp add: div_eq_0_iff)
    then show ?thesis
      by (simp add: bits.simps)
  next
    case False
    with 1 have ih: "2 ^ (bits (n div 2) - 1) \<le> n div 2" "n div 2 < 2 ^ bits (n div 2)"
      by auto
    from False have pos: "0 < bits (n div 2)"
      by (subst bits.simps) simp
    have b: "bits n = Suc (bits (n div 2))"
      using 1(2) by (subst bits.simps) simp
    from pos have "(2 :: nat) ^ bits (n div 2) = 2 * 2 ^ (bits (n div 2) - 1)"
      by (cases "bits (n div 2)") simp_all
    with ih show ?thesis
      unfolding b by (simp; linarith)
  qed
qed


lemma float_exponent_bounds:
  assumes "q \<noteq> 0"
  shows "2 powi float_exponent q \<le> \<bar>q\<bar> \<and> \<bar>q\<bar> < 2 powi (float_exponent q + 1)"
proof (cases "1 \<le> \<bar>q\<bar>")
  case True
  define n where "n = nat \<lfloor>\<bar>q\<bar>\<rfloor>"
  from True have n: "0 < n" "of_nat n \<le> \<bar>q\<bar>" "\<bar>q\<bar> < of_nat n + 1"
    unfolding n_def by (simp_all add: le_floor_iff) linarith
  from bits_bounds [OF n(1)] have b: "2 ^ (bits n - 1) \<le> n" "n + 1 \<le> 2 ^ bits n"
    by simp_all
  have pos: "0 < bits n"
    using n(1) by (subst bits.simps) simp
  have e: "float_exponent q = int (bits n - 1)"
    using True pos by (simp add: float_exponent_def n_def)
  have e1: "float_exponent q + 1 = int (bits n)"
    using pos by (simp add: e)
  have "(2 :: rat) ^ (bits n - 1) \<le> of_nat n"
    using of_nat_mono [OF b(1), where 'a = rat] by simp
  moreover have "(of_nat n + 1 :: rat) \<le> 2 ^ bits n"
    using of_nat_mono [OF b(2), where 'a = rat] by simp
  ultimately show ?thesis
    unfolding e1 unfolding e power_int_of_nat using n by linarith
next
  case False
  define a where "a = \<bar>q\<bar>"
  from False assms have a: "0 < a" "a < 1"
    by (simp_all add: a_def)
  define m where "m = nat (\<lceil>1 / a\<rceil> - 1)"
  have "1 < 1 / a"
    using a by simp
  then have c: "2 \<le> \<lceil>1 / a\<rceil>"
    by (simp add: le_ceiling_iff) 
  have m: "0 < m" "of_nat m < 1 / a" "1 / a \<le> of_nat m + 1"
    unfolding m_def using c by (simp_all add: less_ceiling_iff [symmetric]) linarith+
  from bits_bounds [OF m(1)] have b: "2 ^ (bits m - 1) \<le> m" "m + 1 \<le> 2 ^ bits m"
    by simp_all
  have pos: "0 < bits m"
    using m(1) by (subst bits.simps) simp
  have e: "float_exponent q = - int (bits m)"
    using False by (simp add: float_exponent_def m_def a_def)
  have e1: "float_exponent q + 1 = - int (bits m - 1)"
    using pos by (simp add: e)
  have lo: "(2 :: rat) ^ (bits m - 1) \<le> of_nat m"
    using of_nat_mono [OF b(1), where 'a = rat] by simp
  have hi: "(of_nat m + 1 :: rat) \<le> 2 ^ bits m"
    using of_nat_mono [OF b(2), where 'a = rat] by simp
  from hi m(3) have "1 / a \<le> 2 ^ bits m"
    by linarith
  then have 1: "1 / 2 ^ bits m \<le> a"
    using a by (simp add: field_simps)
  from lo m(2) have "2 ^ (bits m - 1) < 1 / a"
    by linarith
  then have 2: "a < 1 / 2 ^ (bits m - 1)"
    using a by (simp add: field_simps)
  from 1 2 show ?thesis
    unfolding e1 unfolding e a_def [symmetric]
    by (simp add: power_int_minus field_simps)
qed

text \<open>
  \<open>fl q\<close> is a multiple of the unit in the last place of \<open>q\<close>, nearest to \<open>q\<close>, and
  the significand of \<open>q\<close> has 53 bits.
\<close>

lemma fl_nearest:
  assumes "q \<noteq> 0"
  shows "(\<exists>n. fl q = of_int n * 2 powi (float_exponent q - 52))
       \<and> \<bar>fl q - q\<bar> \<le> 2 powi (float_exponent q - 52) / 2
       \<and> 2 ^ 52 \<le> \<bar>q\<bar> / 2 powi (float_exponent q - 52)
       \<and> \<bar>q\<bar> / 2 powi (float_exponent q - 52) < 2 ^ 53"
proof -
  define u :: rat where "u = 2 powi (float_exponent q - 52)"
  have u: "0 < u"
    by (simp add: u_def)
  define x where "x = q / u"
  have "of_int \<lfloor>x\<rfloor> \<le> x" "x < of_int \<lfloor>x\<rfloor> + 1"
    by linarith+
  then have r: "\<bar>of_int (round_half_even x) - x\<bar> \<le> 1 / 2"
    unfolding round_half_even_def Let_def by (auto simp: abs_le_iff)
  have f: "fl q = of_int (round_half_even x) * u"
    using assms by (simp add: fl_def Let_def u_def x_def)
  have "fl q - q = (of_int (round_half_even x) - x) * u"
    using u by (simp add: f x_def algebra_simps)
  then have "\<bar>fl q - q\<bar> = \<bar>of_int (round_half_even x) - x\<bar> * u"
    using u by (simp add: abs_mult)
  also have "\<dots> \<le> 1 / 2 * u"
    using r u by (intro mult_right_mono) simp_all
  finally have near: "\<bar>fl q - q\<bar> \<le> u / 2"
    by simp
  have split: "2 powi float_exponent q = 2 ^ 52 * u"
       "2 powi (float_exponent q + 1) = 2 ^ 53 * u"
    by (simp_all add: u_def power_int_diff power_int_add)
  from float_exponent_bounds [OF assms] have "2 ^ 52 * u \<le> \<bar>q\<bar>" "\<bar>q\<bar> < 2 ^ 53 * u"
    unfolding split by simp_all
  then have sig: "2 ^ 52 \<le> \<bar>q\<bar> / u" "\<bar>q\<bar> / u < 2 ^ 53"
    using u by (simp_all add: field_simps)
  from f near sig show ?thesis
    unfolding u_def by blast
qed

subsection \<open>Evaluating the percentage\<close>

lemma float_exponent_small:
  "0 < q \<Longrightarrow> q < 1 \<Longrightarrow> \<lceil>1 / q\<rceil> = c \<Longrightarrow> bits (nat (c - 1)) = b \<Longrightarrow> float_exponent q = - int b"
  by (simp add: float_exponent_def)

lemma float_exponent_large:
  "1 \<le> q \<Longrightarrow> \<lfloor>q\<rfloor> = c \<Longrightarrow> bits (nat c) = b \<Longrightarrow> float_exponent q = int b - 1"
  by (simp add: float_exponent_def)

lemma round_half_even_below:
  "of_int n \<le> x \<Longrightarrow> x < of_int n + 1 / 2 \<Longrightarrow> round_half_even x = n"
proof -
  assume a: "of_int n \<le> x" "x < of_int n + 1 / 2"
  then have "\<lfloor>x\<rfloor> = n"
    by (intro floor_unique) simp_all
  with a show ?thesis
    by (simp add: round_half_even_def Let_def)
qed

lemma round_half_even_above:
  "of_int n + 1 / 2 < x \<Longrightarrow> x < of_int n + 1 \<Longrightarrow> round_half_even x = n + 1"
proof -
  assume a: "of_int n + 1 / 2 < x" "x < of_int n + 1"
  then have "\<lfloor>x\<rfloor> = n"
    by (intro floor_unique) simp_all
  with a show ?thesis
    by (simp add: round_half_even_def Let_def)
qed

lemma fl_eval:
  "q \<noteq> 0 \<Longrightarrow> float_exponent q = e \<Longrightarrow> round_half_even (q / 2 powi (e - 52)) = n \<Longrightarrow>
     fl q = of_int n * 2 powi (e - 52)"
  by (simp add: fl_def Let_def)

lemma bits_1: "bits (Suc 0) = 1"
  by (simp add: bits.simps)

lemma fl_half: "fl (1 / 2) = 1 / 2"
proof -
  have e: "float_exponent (1 / 2) = - 1"
    using float_exponent_small [of "1 / 2" 2 1] by (simp add: bits_1)
  have r: "round_half_even ((1 / 2) / 2 powi (- 1 - 52)) = 4503599627370496"
    by (rule round_half_even_below) simp_all
  from fl_eval [OF _ e r] show ?thesis
    by simp
qed

lemma fl_50: "fl (1 / 2 * 100) = 50"
proof -
  have b: "bits 50 = 6"
    by (simp add: bits.simps)
  have e: "float_exponent (1 / 2 * 100) = 5"
    using float_exponent_large [of "1 / 2 * 100" 50 6] by (simp add: b)
  have r: "round_half_even ((1 / 2 * 100) / 2 powi (5 - 52)) = 7036874417766400"
    by (rule round_half_even_below) simp_all
  from fl_eval [OF _ e r] show ?thesis
    by simp
qed

lemma fl_1: "fl 1 = 1"
proof -
  have e: "float_exponent 1 = 0"
    using float_exponent_large [of 1 1 1] by (simp add: bits_1)
  have r: "round_half_even (1 / 2 powi (0 - 52)) = 4503599627370496"
    by (rule round_half_even_below) simp_all
  from fl_eval [OF _ e r] show ?thesis
    by simp
qed

lemma fl_100: "fl 100 = 100"
proof -
  have b: "bits 100 = 7"
    by (simp add: bits.simps)
  have e: "float_exponent 100 = 6"
    using float_exponent_large [of 100 100 7] by (simp add: b)
  have r: "round_half_even (100 / 2 powi (6 - 52)) = 7036874417766400"
    by (rule round_half_even_below) simp_all
  from fl_eval [OF _ e r] show ?thesis
    by simp
qed

lemma fl_23_40: "fl (23 / 40) = 2589569785738035 / 4503599627370496"
proof -
  have c: "\<lceil>1 / (23 / 40 :: rat)\<rceil> = 2"
    by (rule ceiling_unique) simp_all
  have e: "float_exponent (23 / 40) = - 1"
    using float_exponent_small [OF _ _ c, of 1] by (simp add: bits_1)
  have r: "round_half_even ((23 / 40) / 2 powi (- 1 - 52)) = 5179139571476070"
    by (rule round_half_even_below) simp_all
  from fl_eval [OF _ e r] show ?thesis
    by simp
qed

lemma fl_57: "fl (2589569785738035 / 4503599627370496 * 100) = 8092405580431359 / 140737488355328"
proof -
  have b: "bits 57 = 6"
    by (simp add: bits.simps)
  have c: "\<lfloor>2589569785738035 / 4503599627370496 * 100 :: rat\<rfloor> = 57"
    by (rule floor_unique) simp_all
  have e: "float_exponent (2589569785738035 / 4503599627370496 * 100) = 5"
    using float_exponent_large [OF _ c, of 6] by (simp add: b)
  have r: "round_half_even ((2589569785738035 / 4503599627370496 * 100) / 2 powi (5 - 52))
      = 8092405580431359"
    by (rule round_half_even_below) simp_all
  from fl_eval [OF _ e r] show ?thesis
    by simp
qed

lemma pct_23_40: "Math_round (fl (fl (23 / 40) * 100)) = 57"
  unfolding fl_23_40 fl_57 Math_round_def by (rule floor_unique) simp_all

lemma spec_pct_23_40: "spec_pct 23 40 = 58"
  unfolding spec_pct_def by simp

lemma pct_1_1: "Math_round (fl (fl 1 * 100)) = 100"
proof -
  have "fl (fl 1 * 100) = 100"
    by (simp add: fl_1 fl_100)
  then show ?thesis
    unfolding Math_round_def by (intro floor_unique) simp_all
qed

text \<open>The runs of the examples.\<close>

lemma loopDates_five:
  "loopDates (2024, 1, 15) (2024, 1, 19)
     = [(2024, 1, 15), (2024, 1, 16), (2024, 1, 17), (2024, 1, 18), (2024, 1, 19)]"
  by code_simp

lemma loopDone_five:
  "loopDone fiveDayApp
     [(2024, 1, 15), (2024, 1, 16), (2024, 1, 17), (2024, 1, 18), (2024, 1, 19)] = 23"
  by code_simp

lemma act_five: "length (activeHabits fiveDayApp) = 8"
  by code_simp

lemma loopDates_one: "loopDates (2024, 1, 15) (2024, 1, 15) = [(2024, 1, 15)]"
  by code_simp

lemma loopDone_inherited: "loopDone inheritedApp [(2024, 1, 15)] = 1"
  by code_simp

lemma act_inherited: "length (activeHabits inheritedApp) = 1"
  by code_simp

lemma spec_dates_one: "spec_dates (2024, 1, 15) (2024, 1, 15) = [(2024, 1, 15)]"
  by code_simp

lemma claimed_done_inherited: "claimed_done inheritedApp [(2024, 1, 15)] = 0"
  by code_simp

lemma loopDates_early: "loopDates (99, 12, 31) (100, 1, 2) = []"
  by code_simp

lemma spec_dates_early:
  "spec_dates (99, 12, 31) (100, 1, 2) = [(99, 12, 31), (100, 1, 1), (100, 1, 2)]"
  by code_simp

lemma isoText_999: "isoText (toISODate (parseISODate (999, 12, 31))) = ''999-12-31''"
  by code_simp

lemma spec_dates_three:
  "spec_dates (2024, 1, 15) (2024, 1, 17) = [(2024, 1, 15), (2024, 1, 16), (2024, 1, 17)]"
  by code_simp

lemma spec_done_three:
  "spec_done threeDayApp [(2024, 1, 15), (2024, 1, 16), (2024, 1, 17)] = 3"
  by code_simp

lemma act_three: "length (activeHabits threeDayApp) = 2"
  by code_simp

lemma ids_three:
  "\<forall>h \<in> set (activeHabits threeDayApp). id_habit h \<notin> set Object_prototype_names"
  by code_simp

lemma iso_date_examples: "iso_date (2024, 1, 15)" "iso_date (2024, 1, 17)"
  by (simp_all add: iso_date_def calendar_date_def days_in_month_def)

text \<open>
  C1, as the code has it. For every inclusive range between two calendar dates of years
  from 1000 to 9999, every habit list and every checks table \<open>completionForRange\<close>
  returns: as total the number of calendar dates of the range times the number of
  active habits; as done the number of pairs of a date of the range and an active habit
  whose check entry is true, or which have no check entry while the id of the habit is
  a name that every object inherits (\<^verbatim>\<open>toString\<close>, \<^verbatim>\<open>constructor\<close> and the others of
  \<open>Object_prototype_names\<close>); and as percentage 0 when the total is 0 and otherwise
  \<^verbatim>\<open>Math.round\<close> of the binary64 value of \<open>(done / total) * 100\<close>, quotient and
  product each rounded to the nearest binary64 number. When no active habit has such an
  id, done is the number of pairs whose check entry is true, an absent entry counting
  as false. Without active habits the result is \<open>{done: 0, total: 0, pct: 0}\<close>.
\<close>

theorem completionForRange_counts:
  assumes "iso_date startIso" and "iso_date endIsoInclusive"
  shows "completionForRange s startIso endIsoInclusive =
     Some \<lparr> done_n = spec_done s (spec_dates startIso endIsoInclusive),
            total_n = length (spec_dates startIso endIsoInclusive) * length (activeHabits s),
            pct = (if length (spec_dates startIso endIsoInclusive) * length (activeHabits s) = 0
                   then 0
                   else Math_round
                     (fl (fl (of_nat (spec_done s (spec_dates startIso endIsoInclusive))
                              / of_nat (length (spec_dates startIso endIsoInclusive)
                                        * length (activeHabits s)))
                          * 100))) \<rparr>
   \<and> ((\<forall>h \<in> set (activeHabits s). id_habit h \<notin> set Object_prototype_names) \<longrightarrow>
        spec_done s (spec_dates startIso endIsoInclusive)
          = claimed_done s (spec_dates startIso endIsoInclusive))
   \<and> (activeHabits s = [] \<longrightarrow>
        completionForRange s startIso endIsoInclusive
          = Some \<lparr> done_n = 0, total_n = 0, pct = 0 \<rparr>)"
proof -
  note run = completionForRange_run [of s startIso endIsoInclusive,
      unfolded loopDates_spec [OF assms] loopDone_spec]
  have claimed: "(\<forall>h \<in> set (activeHabits s). id_habit h \<notin> set Object_prototype_names) \<longrightarrow>
        spec_done s (spec_dates startIso endIsoInclusive)
          = claimed_done s (spec_dates startIso endIsoInclusive)"
    using spec_done_claimed by blast
  have none: "activeHabits s = [] \<longrightarrow>
        completionForRange s startIso endIsoInclusive
          = Some \<lparr> done_n = 0, total_n = 0, pct = 0 \<rparr>"
    by (simp add: run spec_done_def)
  show ?thesis
    by (intro conjI run claimed none)
qed

text \<open>
  The example of the specification: two active habits over three days, the first
  checked on all three days and the second on none. Their ids are not inherited names,
  so the three pairs counted are those whose check entry is true.
\<close>

theorem completionForRange_counts_witness:
  "completionForRange threeDayApp (2024, 1, 15) (2024, 1, 17)
     = Some \<lparr> done_n = 3, total_n = 6, pct = 50 \<rparr>
   \<and> claimed_done threeDayApp (spec_dates (2024, 1, 15) (2024, 1, 17)) = 3"
proof -
  have "Math_round (fl (fl (1 / 2) * 100)) = 50"
    unfolding fl_half fl_50 Math_round_def by (rule floor_unique) simp_all
  then have "Math_round (fl (fl (of_nat 3 / of_nat (3 * 2)) * 100)) = 50"
    by simp
  with completionForRange_counts [OF iso_date_examples, of threeDayApp] ids_three
  show ?thesis
    by (simp add: spec_dates_three spec_done_three act_three)
qed

text \<open>
  C1 as stated fails in three ways. On the percentage: with 23 checks of 40 the exact
  percentage is 57.5, which rounds to 58, but the binary64 product is just below 57.5
  and the code returns 57. On an absent entry: a habit with the id \<^verbatim>\<open>toString\<close> and no
  check entry is counted as done, because the lookup finds the inherited property. On
  the dates: the range from 0099-12-31 to 0100-01-02 has three calendar dates, but the
  year 99 is read as 1999, the loop pushes no date, and the total is 0 with two active
  habits; and for 0999-12-31 the key that is read is \<^verbatim>\<open>999-12-31\<close>, not the text of the
  date.
\<close>

theorem completionForRange_counts_counterexample:
  "completionForRange fiveDayApp (2024, 1, 15) (2024, 1, 19)
     = Some \<lparr> done_n = 23, total_n = 40, pct = 57 \<rparr>
   \<and> spec_pct 23 40 = 58
   \<and> completionForRange inheritedApp (2024, 1, 15) (2024, 1, 15)
     = Some \<lparr> done_n = 1, total_n = 1, pct = 100 \<rparr>
   \<and> claimed_done inheritedApp (spec_dates (2024, 1, 15) (2024, 1, 15)) = 0
   \<and> completionForRange threeDayApp (99, 12, 31) (100, 1, 2)
     = Some \<lparr> done_n = 0, total_n = 0, pct = 0 \<rparr>
   \<and> length (spec_dates (99, 12, 31) (100, 1, 2)) * length (activeHabits threeDayApp) = 6
   \<and> isoText (toISODate (parseISODate (999, 12, 31))) = ''999-12-31''"
proof -
  have "Math_round (fl (fl (of_nat 23 / of_nat (5 * 8)) * 100)) = 57"
    using pct_23_40 by simp
  with completionForRange_run [of fiveDayApp "(2024, 1, 15)" "(2024, 1, 19)"]
  have five: "completionForRange fiveDayApp (2024, 1, 15) (2024, 1, 19)
      = Some \<lparr> done_n = 23, total_n = 40, pct = 57 \<rparr>"
    by (simp add: loopDates_five loopDone_five act_five)
  have one: "completionForRange inheritedApp (2024, 1, 15) (2024, 1, 15)
      = Some \<lparr> done_n = 1, total_n = 1, pct = 100 \<rparr>"
    using completionForRange_run [of inheritedApp "(2024, 1, 15)" "(2024, 1, 15)"] pct_1_1
    by (simp add: loopDates_one loopDone_inherited act_inherited)
  have early: "completionForRange threeDayApp (99, 12, 31) (100, 1, 2)
      = Some \<lparr> done_n = 0, total_n = 0, pct = 0 \<rparr>"
    using completionForRange_run [of threeDayApp "(99, 12, 31)" "(100, 1, 2)"]
    by (simp add: loopDates_early loopDone_def)
  show ?thesis
    by (intro conjI five one early spec_pct_23_40 isoText_999)
       (simp_all add: spec_dates_one claimed_done_inherited spec_dates_early act_three)
qed

section \<open>Properties of the month grid\<close>

lemma startOfDay_noon: "startOfDay (MakeDate n noon) = MakeDate n noon"
  by (simp add: startOfDay_eq Day_noon)

lemma Day_startOfISOWeek: "Day (startOfISOWeek t) = Day t - (Day t + 3) mod 7"
  by (simp add: startOfISOWeek_eq Day_noon)

lemma Day_endOfISOWeek: "Day (endOfISOWeek t) = Day t - (Day t + 3) mod 7 + 6"
  by (simp add: endOfISOWeek_def Day_addDays Day_startOfISOWeek)

text \<open>The end of the grid: the week of the day six days after the last day of the month.\<close>

lemma gridEnd_eq:
  fixes L :: int
  shows "L + 6 - (L + 6 + 3) mod 7 + 6
           = L - (L + 3) mod 7 + 6 + (if (L + 4) mod 7 = 1 then 0 else 7)"
proof -
  define r where "r = (L + 3) mod 7"
  have r: "0 \<le> r" "r < 7"
    by (simp_all add: r_def)
  have "L + 6 + 3 = (L + 3) + 6"
    by simp
  then have a: "(L + 6 + 3) mod 7 = (r + 6) mod 7"
    unfolding r_def by (simp only: mod_add_left_eq)
  have b: "(r + 6) mod 7 = (if r = 0 then 6 else r - 1)"
  proof (cases "r = 0")
    case True
    then show ?thesis by simp
  next
    case False
    with r have "r + 6 = (r - 1) + 7" "0 \<le> r - 1" "r - 1 < 7"
      by simp_all
    then show ?thesis
      using False by (metis mod_add_self2 mod_pos_pos_trivial)
  qed
  have c: "(L + 4) mod 7 = 1 \<longleftrightarrow> r = 0"
    unfolding weekday_next r_def [symmetric] using r by auto
  show ?thesis
    unfolding a b c r_def [symmetric] by simp
qed

lemma monthDays_eq:
  "monthDays d =
     Some (map (\<lambda>k. MakeDate (Day (startOfISOWeek (startOfMonth d)) + int k) noon)
       [0 ..< nat (Day (addDays (startOfISOWeek (addDays (endOfMonth d) 6)) 6)
                   - Day (startOfISOWeek (startOfMonth d)) + 1)])"
proof -
  have s: "startOfISOWeek (startOfMonth d)
      = MakeDate (Day (startOfISOWeek (startOfMonth d))) noon"
    by (simp add: startOfISOWeek_eq Day_noon)
  have e: "addDays (startOfISOWeek (addDays (endOfMonth d) 6)) 6
      = MakeDate (Day (addDays (startOfISOWeek (addDays (endOfMonth d) 6)) 6)) noon"
    by (simp add: addDays_eq Day_noon)
  show ?thesis
    unfolding monthDays_def Let_def
    by (subst s, subst e) (simp add: pushDays_noon startOfDay_noon)
qed

text \<open>
  C5, where the code departs from it. In the month view the visible dates are
  consecutive days from the Monday on or before the first day of the month; their number
  is a multiple of 7, between 35 and 49, and the last one is a Sunday. That Sunday is
  the one on or after the last day of the month only when the month ends on a Monday:
  in every other case it is the Sunday a week later, because the code takes the week of
  the day six days after the last day of the month. Here \<open>startOfMonth\<close> is the first
  day of the selected month and \<open>endOfMonth\<close> the day before the first day of the next
  month.
\<close>

theorem month_grid:
  assumes "view s = MonthView"
  shows "\<exists>n. visibleISOs s =
           Some (map (\<lambda>k. toISODate
                   (MakeDate (Day (startOfISOWeek (startOfMonth (parseISODate (selectedISO s))))
                              + int k) noon))
                 [0 ..< n])
       \<and> 7 dvd n
       \<and> int n = max 0
           (Day (addDays (startOfISOWeek (addDays (endOfMonth (parseISODate (selectedISO s))) 6)) 6)
            - Day (startOfISOWeek (startOfMonth (parseISODate (selectedISO s)))) + 1)
       \<and> getDay (startOfISOWeek (startOfMonth (parseISODate (selectedISO s)))) = 1
       \<and> Day (startOfISOWeek (startOfMonth (parseISODate (selectedISO s))))
           \<le> Day (startOfMonth (parseISODate (selectedISO s)))
       \<and> Day (startOfMonth (parseISODate (selectedISO s))) - 6
           \<le> Day (startOfISOWeek (startOfMonth (parseISODate (selectedISO s))))
       \<and> getDay (addDays (startOfISOWeek (addDays (endOfMonth (parseISODate (selectedISO s))) 6)) 6)
           = 0
       \<and> Day (addDays (startOfISOWeek (addDays (endOfMonth (parseISODate (selectedISO s))) 6)) 6)
           = Day (endOfISOWeek (endOfMonth (parseISODate (selectedISO s))))
             + (if getDay (endOfMonth (parseISODate (selectedISO s))) = 1 then 0 else 7)
       \<and> 35 \<le> n \<and> n \<le> 49
       \<and> (case toISODate (parseISODate (selectedISO s)) of (y, m, D) \<Rightarrow>
             toISODate (startOfMonth (parseISODate (selectedISO s))) = (y, m, 1)
           \<and> toISODate (addDays (endOfMonth (parseISODate (selectedISO s))) 1)
               = (y + m div 12, m mod 12 + 1, 1))"
proof -
  let ?d = "parseISODate (selectedISO s)"
  let ?gs = "Day (startOfISOWeek (startOfMonth ?d))"
  let ?ge = "Day (addDays (startOfISOWeek (addDays (endOfMonth ?d) 6)) 6)"
  let ?F = "Day (startOfMonth ?d)"
  let ?L = "Day (endOfMonth ?d)"
  let ?n = "nat (?ge - ?gs + 1)"
  have gs: "?gs = ?F - (?F + 3) mod 7"
    by (simp add: Day_startOfISOWeek)
  have ge: "?ge = ?L + 6 - (?L + 6 + 3) mod 7 + 6"
    by (simp add: Day_addDays Day_startOfISOWeek)
  have vis: "visibleISOs s = Some (map (\<lambda>k. toISODate (MakeDate (?gs + int k) noon)) [0 ..< ?n])"
    using assms by (simp add: visibleISOs_def Let_def monthDays_eq comp_def)
  have wd_s: "getDay (startOfISOWeek (startOfMonth ?d)) = 1"
    unfolding getDay_def WeekDay_def gs by (rule monday)
  have "?ge + 4 = 7 * ((?L + 6 + 3) div 7) + 7"
    unfolding ge by (simp add: minus_mod_eq_mult_div algebra_simps)
  then have "(?ge + 4) mod 7 = 0"
    by simp
  then have wd_e: "getDay (addDays (startOfISOWeek (addDays (endOfMonth ?d) 6)) 6) = 0"
    by (simp add: getDay_def WeekDay_def)
  have "?gs = 7 * ((?F + 3) div 7) - 3"
    unfolding gs by (simp add: minus_mod_eq_mult_div algebra_simps)
  moreover have "?ge = 7 * ((?L + 6 + 3) div 7) + 3"
    unfolding ge by (simp add: minus_mod_eq_mult_div algebra_simps)
  ultimately have weeks: "?ge - ?gs + 1 = 7 * ((?L + 6 + 3) div 7 - (?F + 3) div 7 + 1)"
    by (simp add: algebra_simps)
  have dvd: "7 dvd ?n"
  proof (cases "0 \<le> (?L + 6 + 3) div 7 - (?F + 3) div 7 + 1")
    case True
    then have "?n = 7 * nat ((?L + 6 + 3) div 7 - (?F + 3) div 7 + 1)"
      unfolding weeks by (simp add: nat_mult_distrib)
    then show ?thesis
      by simp
  next
    case False
    then have "?n = 0"
      unfolding weeks by simp
    then show ?thesis
      by simp
  qed
  have len: "int ?n = max 0 (?ge - ?gs + 1)"
    by simp
  have lo: "?gs \<le> ?F" "?F - 6 \<le> ?gs"
    unfolding gs using pos_mod_sign [of 7 "?F + 3"] pos_mod_bound [of 7 "?F + 3"] by linarith+
  have diverge: "?ge = Day (endOfISOWeek (endOfMonth ?d))
      + (if getDay (endOfMonth ?d) = 1 then 0 else 7)"
    unfolding ge Day_endOfISOWeek getDay_def WeekDay_def by (rule gridEnd_eq)
  have span: "27 \<le> ?L - ?F" "?L - ?F \<le> 30"
    using month_span [of ?d] by simp_all
  have hi: "?L + 6 \<le> ?ge" "?ge \<le> ?L + 12"
    unfolding ge using pos_mod_sign [of 7 "?L + 6 + 3"] pos_mod_bound [of 7 "?L + 6 + 3"]
    by linarith+
  from span lo hi have "34 \<le> ?ge - ?gs + 1" "?ge - ?gs + 1 \<le> 49"
    by linarith+
  then have rough: "34 \<le> ?n" "?n \<le> 49"
    by linarith+
  from dvd obtain w where w: "?n = 7 * w"
    by (elim dvdE)
  from rough(1) have "5 \<le> w"
    unfolding w by linarith
  then have least: "35 \<le> ?n"
    unfolding w by simp
  have ends: "case toISODate ?d of (y, m, D) \<Rightarrow>
             toISODate (startOfMonth ?d) = (y, m, 1)
           \<and> toISODate (addDays (endOfMonth ?d) 1) = (y + m div 12, m mod 12 + 1, 1)"
    using month_first_last [of ?d] by (cases "toISODate ?d") simp
  show ?thesis
    by (rule exI [of _ ?n]) (intro conjI vis dvd len wd_s lo wd_e diverge least rough(2) ends)
qed

text \<open>
  January 2024 ends on Wednesday 31; the Sunday on or after it is 4 February, but the
  grid runs from 1 January to 11 February, 42 days.
\<close>

theorem month_grid_witness:
  "map_option (\<lambda>ds. (length ds, hd ds, last ds))
     (visibleISOs ((initialApp (2024, 1, 15)) \<lparr> view := MonthView \<rparr>))
     = Some (42, (2024, 1, 1), (2024, 2, 11))
   \<and> toISODate (endOfMonth (parseISODate (2024, 1, 15))) = (2024, 1, 31)
   \<and> toISODate (endOfISOWeek (endOfMonth (parseISODate (2024, 1, 15)))) = (2024, 2, 4)"
proof -
  let ?s = "(initialApp (2024, 1, 15)) \<lparr> view := MonthView \<rparr>"
  have v: "view ?s = MonthView"
    by simp
  have sel: "selectedISO ?s = (2024, 1, 15)"
    by (simp add: initialApp_def)
  have gs: "Day (startOfISOWeek (startOfMonth (parseISODate (2024, 1, 15)))) = 19723"
    by code_simp
  have ge: "Day (addDays (startOfISOWeek (addDays (endOfMonth (parseISODate (2024, 1, 15))) 6)) 6)
      = 19764"
    by code_simp
  from month_grid [OF v, unfolded sel gs ge] obtain n where
    vis: "visibleISOs ?s = Some (map (\<lambda>k. toISODate (MakeDate (19723 + int k) noon)) [0 ..< n])"
    and n: "int n = max 0 (19764 - 19723 + 1)"
    by blast
  from n have n42: "n = 42"
    by simp
  have first: "toISODate (MakeDate (19723 + int 0) noon) = (2024, 1, 1)"
    by code_simp
  have last: "toISODate (MakeDate (19723 + int 41) noon) = (2024, 2, 11)"
    by code_simp
  have 1: "map_option (\<lambda>ds. (length ds, hd ds, last ds)) (visibleISOs ?s)
      = Some (42, (2024, 1, 1), (2024, 2, 11))"
    unfolding vis n42 using first last
    by (simp add: hd_map last_map del: upt_Suc)
  have 2: "toISODate (endOfMonth (parseISODate (2024, 1, 15))) = (2024, 1, 31)"
    by code_simp
  have 3: "toISODate (endOfISOWeek (endOfMonth (parseISODate (2024, 1, 15)))) = (2024, 2, 4)"
    by code_simp
  from 1 2 3 show ?thesis
    by simp
qed

end
